theory Spec2Isabelle
  imports Main
begin

section \<open>Line-level diff (pkg/diff/block_diff.go, LineDiffer)\<close>

text \<open>
  Go strings are byte sequences; they are modelled as \<open>string\<close> (a list of \<open>char\<close>,
  one \<open>char\<close> per byte).  Go's \<open>int\<close> is modelled as \<open>int\<close>: the only integers
  computed below are list indices and table entries bounded by the list lengths, so no
  64-bit wrap-around can occur.
\<close>

definition newline :: char where
  "newline = CHR 0x0A"

text \<open>
  \<open>strings.Split(s, "\n")\<close>: the pieces of \<open>s\<close> between the separator bytes.  The
  result always has one more element than \<open>s\<close> has separators; in particular the empty
  string is split into the one-element sequence holding the empty string.
\<close>

fun Split_nl :: "string \<Rightarrow> string list" where
  "Split_nl [] = [[]]"
| "Split_nl (c # cs) =
     (if c = newline then [] # Split_nl cs
      else (case Split_nl cs of
              [] \<Rightarrow> [[c]]
            | l # ls \<Rightarrow> (c # l) # ls))"

text \<open>\<open>type LineChange struct { Type string; LineNum int; Content string }\<close>\<close>

record LineChange =
  lcType :: string
  LineNum :: int
  lcContent :: string

text \<open>
  The table \<open>dp\<close> is a slice of \<open>oldLen+1\<close> rows of \<open>newLen+1\<close> zeros.
\<close>

definition make_dp :: "nat \<Rightarrow> nat \<Rightarrow> int list list" where
  "make_dp oldLen newLen = replicate (oldLen + 1) (replicate (newLen + 1) 0)"

text \<open>
  One iteration of the body of the inner \<open>for j\<close> loop, and the two counting loops
  \<open>for i := 1; i <= oldLen; i++ { for j := 1; j <= newLen; j++ { ... } }\<close>, as folds
  over the index ranges.  \<open>max\<close> is the file's own helper, which agrees with HOL's
  \<open>max\<close> on \<open>int\<close>.
\<close>

definition fill_cell :: "string list \<Rightarrow> string list \<Rightarrow> nat \<Rightarrow> nat \<Rightarrow> int list list \<Rightarrow> int list list" where
  "fill_cell oldLines newLines i j dp =
     (if oldLines ! (i - 1) = newLines ! (j - 1)
      then dp[i := (dp ! i)[j := dp ! (i - 1) ! (j - 1) + 1]]
      else dp[i := (dp ! i)[j := max (dp ! (i - 1) ! j) (dp ! i ! (j - 1))]])"

definition fill_row :: "string list \<Rightarrow> string list \<Rightarrow> nat \<Rightarrow> int list list \<Rightarrow> int list list" where
  "fill_row oldLines newLines i dp =
     fold (fill_cell oldLines newLines i) [1 ..< Suc (length newLines)] dp"

definition fill_table :: "string list \<Rightarrow> string list \<Rightarrow> int list list" where
  "fill_table oldLines newLines =
     fold (fill_row oldLines newLines) [1 ..< Suc (length oldLines)]
       (make_dp (length oldLines) (length newLines))"

text \<open>
  The backtracking loop \<open>for i > 0 || j > 0\<close>.  \<open>changes\<close> is the script built so
  far; every branch prepends one entry.  The last \<open>else if i > 0\<close> has no \<open>else\<close>:
  were none of the three branches taken, the loop would spin without progress, which
  the model renders by the \<open>None\<close> result.
\<close>

function backtrack ::
  "int list list \<Rightarrow> string list \<Rightarrow> string list \<Rightarrow> nat \<Rightarrow> nat \<Rightarrow> LineChange list
     \<Rightarrow> LineChange list option" where
  "backtrack dp oldLines newLines i j changes =
     (if i > 0 \<or> j > 0 then
        (if i > 0 \<and> j > 0 \<and> oldLines ! (i - 1) = newLines ! (j - 1) then
           backtrack dp oldLines newLines (i - 1) (j - 1)
             (\<lparr>lcType = ''unchanged'', LineNum = int j, lcContent = newLines ! (j - 1)\<rparr> # changes)
         else if j > 0 \<and> (i = 0 \<or> dp ! i ! (j - 1) \<ge> dp ! (i - 1) ! j) then
           backtrack dp oldLines newLines i (j - 1)
             (\<lparr>lcType = ''added'', LineNum = int j, lcContent = newLines ! (j - 1)\<rparr> # changes)
         else if i > 0 then
           backtrack dp oldLines newLines (i - 1) j
             (\<lparr>lcType = ''removed'', LineNum = int i, lcContent = oldLines ! (i - 1)\<rparr> # changes)
         else None)
      else Some changes)"
  by pat_completeness auto
termination
  by (relation "measure (\<lambda>(dp, oldLines, newLines, i, j, changes). i + j)") auto

declare backtrack.simps [simp del]

definition computeLCS :: "string list \<Rightarrow> string list \<Rightarrow> LineChange list option" where
  "computeLCS oldLines newLines =
     backtrack (fill_table oldLines newLines) oldLines newLines
       (length oldLines) (length newLines) []"

definition ComputeLineDiff :: "string \<Rightarrow> string \<Rightarrow> LineChange list option" where
  "ComputeLineDiff oldContent newContent =
     computeLCS (Split_nl oldContent) (Split_nl newContent)"

text \<open>
  The reading of a script used by the round-trip statements.  \<open>Join_nl\<close> is
  \<open>strings.Join(lines, "\n")\<close>; \<open>new_side\<close> selects the entries that belong to the
  new text (added or unchanged), \<open>old_side\<close> those that belong to the old text
  (removed or unchanged).
\<close>

fun Join_nl :: "string list \<Rightarrow> string" where
  "Join_nl [] = []"
| "Join_nl [l] = l"
| "Join_nl (l # ls) = l @ newline # Join_nl ls"

definition new_side :: "LineChange \<Rightarrow> bool" where
  "new_side c = (lcType c = ''added'' \<or> lcType c = ''unchanged'')"

definition old_side :: "LineChange \<Rightarrow> bool" where
  "old_side c = (lcType c = ''removed'' \<or> lcType c = ''unchanged'')"

text \<open>
  The invariant of the backtracking loop: \<open>pre\<close> is the part of the script that
  covers the first \<open>i\<close> old lines and the first \<open>j\<close> new lines.
\<close>

definition script_ok :: "string list \<Rightarrow> string list \<Rightarrow> nat \<Rightarrow> nat \<Rightarrow> LineChange list \<Rightarrow> bool" where
  "script_ok oldLines newLines i j pre =
     (map lcContent (filter new_side pre) = take j newLines \<and>
      map LineNum (filter new_side pre) = map int [1 ..< Suc j] \<and>
      map lcContent (filter old_side pre) = take i oldLines \<and>
      (\<forall>k < length (filter old_side pre).
          lcType (filter old_side pre ! k) = ''removed'' \<longrightarrow>
          LineNum (filter old_side pre ! k) = int (Suc k)))"


section \<open>Strings (the functions of Go's \<open>strings\<close>, \<open>unicode\<close> and \<open>fmt\<close> that the code calls)\<close>

text \<open>\<open>strings.HasPrefix\<close> and \<open>strings.TrimPrefix\<close>.\<close>

definition HasPrefix :: "string \<Rightarrow> string \<Rightarrow> bool" where
  "HasPrefix s pre = (length pre \<le> length s \<and> take (length pre) s = pre)"

definition TrimPrefix :: "string \<Rightarrow> string \<Rightarrow> string" where
  "TrimPrefix s pre = (if HasPrefix s pre then drop (length pre) s else s)"

text \<open>
  \<open>strings.Index(s, sep)\<close>: the position of the first occurrence of \<open>sep\<close> in \<open>s\<close>,
  \<open>None\<close> for Go's \<open>-1\<close>.  \<open>strings.Contains\<close>, \<open>strings.SplitN(s, sep, 2)\<close> and
  \<open>strings.Replace(s, old, new, 1)\<close> (for a non-empty \<open>sep\<close> or \<open>old\<close>, the only
  way the code calls them) are defined from it as the library does.
\<close>

fun Index :: "string \<Rightarrow> string \<Rightarrow> nat option" where
  "Index [] sep = (if sep = [] then Some 0 else None)"
| "Index (c # cs) sep =
     (if HasPrefix (c # cs) sep then Some 0
      else (case Index cs sep of None \<Rightarrow> None | Some k \<Rightarrow> Some (Suc k)))"

definition Contains :: "string \<Rightarrow> string \<Rightarrow> bool" where
  "Contains s sub = (Index s sub \<noteq> None)"

definition SplitN2 :: "string \<Rightarrow> string \<Rightarrow> string list" where
  "SplitN2 s sep =
     (case Index s sep of
        None \<Rightarrow> [s]
      | Some k \<Rightarrow> [take k s, drop (k + length sep) s])"

definition Replace1 :: "string \<Rightarrow> string \<Rightarrow> string \<Rightarrow> string" where
  "Replace1 s old new =
     (case Index s old of
        None \<Rightarrow> s
      | Some k \<Rightarrow> take k s @ new @ drop (k + length old) s)"

text \<open>
  \<open>strings.TrimSpace\<close> removes the leading and the trailing white space, as
  \<open>unicode.IsSpace\<close> defines it on the UTF-8 decoding of the bytes: the six ASCII
  characters tab, line feed, vertical tab, form feed, carriage return and space; U+0085
  and U+00A0 (two bytes each); U+1680, U+2000 to U+200A, U+2028, U+2029, U+202F, U+205F
  and U+3000 (three bytes each).  A byte sequence that is not one of these encodings
  decodes to a character that is no white space.
\<close>

definition space1 :: "char \<Rightarrow> bool" where
  "space1 a = (a = CHR 0x09 \<or> a = CHR 0x0A \<or> a = CHR 0x0B \<or> a = CHR 0x0C \<or> a = CHR 0x0D \<or> a = CHR 0x20)"

definition space2 :: "char \<Rightarrow> char \<Rightarrow> bool" where
  "space2 a b = (a = CHR 0xC2 \<and> (b = CHR 0x85 \<or> b = CHR 0xA0))"

definition space3 :: "char \<Rightarrow> char \<Rightarrow> char \<Rightarrow> bool" where
  "space3 a b c =
     ((a = CHR 0xE1 \<and> b = CHR 0x9A \<and> c = CHR 0x80) \<or>
      (a = CHR 0xE2 \<and> b = CHR 0x80 \<and>
         (((0x80 :: nat) \<le> of_char c \<and> (of_char c :: nat) \<le> 0x8A) \<or> c = CHR 0xA8 \<or> c = CHR 0xA9 \<or> c = CHR 0xAF)) \<or>
      (a = CHR 0xE2 \<and> b = CHR 0x81 \<and> c = CHR 0x9F) \<or>
      (a = CHR 0xE3 \<and> b = CHR 0x80 \<and> c = CHR 0x80))"

fun TrimLeftSpace :: "string \<Rightarrow> string" where
  "TrimLeftSpace (a # b # c # s) =
     (if space1 a then TrimLeftSpace (b # c # s)
      else if space2 a b then TrimLeftSpace (c # s)
      else if space3 a b c then TrimLeftSpace s
      else a # b # c # s)"
| "TrimLeftSpace [a, b] =
     (if space1 a then TrimLeftSpace [b]
      else if space2 a b then []
      else [a, b])"
| "TrimLeftSpace [a] = (if space1 a then [] else [a])"
| "TrimLeftSpace [] = []"

text \<open>The same from the end, on the reversed string: the last byte comes first.\<close>

fun TrimRightSpace_rev :: "string \<Rightarrow> string" where
  "TrimRightSpace_rev (c # b # a # s) =
     (if space1 c then TrimRightSpace_rev (b # a # s)
      else if space2 b c then TrimRightSpace_rev (a # s)
      else if space3 a b c then TrimRightSpace_rev s
      else c # b # a # s)"
| "TrimRightSpace_rev [c, b] =
     (if space1 c then TrimRightSpace_rev [b]
      else if space2 b c then []
      else [c, b])"
| "TrimRightSpace_rev [c] = (if space1 c then [] else [c])"
| "TrimRightSpace_rev [] = []"

definition TrimSpace :: "string \<Rightarrow> string" where
  "TrimSpace s = rev (TrimRightSpace_rev (rev (TrimLeftSpace s)))"

text \<open>
  \<open>unicode.IsDigit(rune(b))\<close> for a byte \<open>b\<close>: a rune below 256 is a digit exactly when
  it is one of \<open>0\<close> to \<open>9\<close>.
\<close>

definition IsDigit_byte :: "char \<Rightarrow> bool" where
  "IsDigit_byte c = ((0x30 :: nat) \<le> of_char c \<and> (of_char c :: nat) \<le> 0x39)"

text \<open>The verb \<open>%d\<close> of \<open>fmt.Sprintf\<close>: the decimal digits, with a minus sign if negative.\<close>

function nat_digits :: "nat \<Rightarrow> string" where
  "nat_digits n =
     (if n < 10 then [char_of (48 + n)]
      else nat_digits (n div 10) @ [char_of (48 + n mod 10)])"
  by pat_completeness auto
termination
  by (relation "measure (\<lambda>n. n)") auto

declare nat_digits.simps [simp del]

definition Itoa :: "int \<Rightarrow> string" where
  "Itoa i = (if i < 0 then CHR ''-'' # nat_digits (nat (- i)) else nat_digits (nat i))"

section \<open>Data model (internal/models/types.go)\<close>

text \<open>
  A pointer to a block is \<open>None\<close> for \<open>nil\<close> and \<open>Some a\<close> for the object at address
  \<open>a\<close> of the store.  \<open>Children []*Block\<close> is the list of the children's pointers.
\<close>

type_synonym addr = nat

type_synonym ptr = "addr option"

record Position =
  Start :: int
  End :: int
  Line :: int

record Block =
  ID :: string
  Type :: string
  Level :: int
  Content :: string
  HTML :: string
  Position :: Position
  Children :: "ptr list"

record BlockChange =
  bcType :: string
  BlockID :: string
  bcBlock :: ptr

text \<open>
  \<open>ParseResponse\<close>.  The blocks of a response are fresh objects without children, so
  the map \<open>Blocks map[string]*Block\<close> is kept by value; it is an association list whose
  order stands for the order in which Go happens to iterate over the map.  The field
  \<open>AST\<close> is never set by the code below and is left out.
\<close>

record ParseResponse =
  prHTML :: string
  prBlocks :: "(string \<times> Block) list"
  prChanges :: "BlockChange list"
  Success :: bool
  Error :: string

text \<open>\<open>m[k] = v\<close> on such a map.\<close>

fun map_put :: "('k \<times> 'v) list \<Rightarrow> 'k \<Rightarrow> 'v \<Rightarrow> ('k \<times> 'v) list" where
  "map_put [] k v = [(k, v)]"
| "map_put ((k', v') # m) k v = (if k' = k then (k, v) # m else (k', v') # map_put m k v)"

section \<open>The parser wrapper (internal/parser/goldmark.go)\<close>

text \<open>
  The goldmark library is not part of the repository.  Its syntax tree is a tree of
  nodes; the code looks at a node's kind, at the level of a heading, at whether a list
  is ordered, and at the segment of the nodes that have one.  The library's parser and
  renderer are parameters: \<open>gm_Parse\<close> maps the source to the document node,
  \<open>gm_Render\<close> renders a node of a source and returns the markup (\<open>Inr\<close>) or the
  message of an error (\<open>Inl\<close>).  \<open>md5hex\<close> stands for \<open>fmt.Sprintf("%x", md5.Sum(s))\<close>,
  a string of 32 hexadecimal digits.
\<close>

datatype node_kind =
    KindHeading int
  | KindParagraph
  | KindList bool
  | KindListItem
  | KindCodeBlock
  | KindFencedCodeBlock
  | KindBlockquote
  | KindThematicBreak
  | KindText
  | KindString
  | KindOther

datatype node = Node node_kind "(nat \<times> nat) option" "node list"

record goldmark =
  gm_Parse :: "string \<Rightarrow> node"
  gm_Render :: "string \<Rightarrow> node \<Rightarrow> string + string"

definition renderNodeToHTML :: "goldmark \<Rightarrow> node \<Rightarrow> string \<Rightarrow> string" where
  "renderNodeToHTML p n source =
     (case gm_Render p source n of Inl err \<Rightarrow> [] | Inr html \<Rightarrow> html)"

text \<open>
  The start, the end and the content of a node: zero and empty for a node without a
  segment, and the content only where the segment lies inside the source.
\<close>

definition node_span :: "node \<Rightarrow> string \<Rightarrow> nat \<times> nat \<times> string" where
  "node_span n source =
     (case n of Node k seg cs \<Rightarrow>
        (case seg of
           None \<Rightarrow> (0, 0, [])
         | Some (startPos, endPos) \<Rightarrow>
             (startPos, endPos,
              if startPos < length source \<and> endPos \<le> length source \<and> endPos > startPos
              then take (endPos - startPos) (drop startPos source) else [])))"

definition generateBlockID :: "(string \<Rightarrow> string) \<Rightarrow> node \<Rightarrow> string \<Rightarrow> string" where
  "generateBlockID md5hex n source =
     (case node_span n source of (startPos, endPos, content) \<Rightarrow>
        take 8 (md5hex (content @ ''-'' @ Itoa (int startPos) @ ''-'' @ Itoa (int endPos))))"

definition heading_type :: "int \<Rightarrow> string" where
  "heading_type l =
     (if l = 1 then ''h1'' else if l = 2 then ''h2'' else if l = 3 then ''h3''
      else if l = 4 then ''h4'' else if l = 5 then ''h5'' else if l = 6 then ''h6''
      else ''heading'')"

definition nodeToBlock :: "goldmark \<Rightarrow> (string \<Rightarrow> string) \<Rightarrow> node \<Rightarrow> string \<Rightarrow> Block option" where
  "nodeToBlock p md5hex n source =
     (case n of Node kind seg cs \<Rightarrow>
        if kind = KindText \<or> kind = KindString then None
        else
          (case node_span n source of (startPos, endPos, content) \<Rightarrow>
             let block = \<lparr>ID = generateBlockID md5hex n source, Type = [], Level = 0,
                          Content = content, HTML = [],
                          Position = \<lparr>Start = int startPos, End = int endPos, Line = 0\<rparr>,
                          Children = []\<rparr>;
                 html = renderNodeToHTML p n source
             in Some
               (case kind of
                  KindHeading l \<Rightarrow> block\<lparr>Type := heading_type l, Level := l, HTML := html\<rparr>
                | KindParagraph \<Rightarrow> block\<lparr>Type := ''paragraph'', HTML := html\<rparr>
                | KindList ordered \<Rightarrow>
                    block\<lparr>Type := (if ordered then ''ordered_list'' else ''unordered_list''),
                          HTML := html\<rparr>
                | KindListItem \<Rightarrow> block\<lparr>Type := ''list_item'', HTML := html\<rparr>
                | KindCodeBlock \<Rightarrow> block\<lparr>Type := ''code_block'', HTML := html\<rparr>
                | KindFencedCodeBlock \<Rightarrow> block\<lparr>Type := ''fenced_code_block'', HTML := html\<rparr>
                | KindBlockquote \<Rightarrow> block\<lparr>Type := ''blockquote'', HTML := html\<rparr>
                | KindThematicBreak \<Rightarrow> block\<lparr>Type := ''thematic_break'', HTML := html\<rparr>
                | _ \<Rightarrow> block\<lparr>Type := ''unknown'', HTML := html\<rparr>)))"

text \<open>
  \<open>ast.Walk\<close> calls the visitor on a node when it enters it and when it leaves it, the
  children in between; the visitor of \<open>extractBlocks\<close> does nothing on leaving and
  never stops the walk, so it sees the nodes in preorder.
\<close>

fun walk_entering :: "node \<Rightarrow> node list" where
  "walk_entering (Node k seg cs) = Node k seg cs # concat (map walk_entering cs)"

definition extractBlocks :: "goldmark \<Rightarrow> (string \<Rightarrow> string) \<Rightarrow> node \<Rightarrow> string \<Rightarrow> (string \<times> Block) list" where
  "extractBlocks p md5hex doc source =
     fold (\<lambda>n blocks. case nodeToBlock p md5hex n source of
                         None \<Rightarrow> blocks
                       | Some block \<Rightarrow> map_put blocks (ID block) block)
          (walk_entering doc) []"

text \<open>\<open>Parse\<close> returns \<open>(*ParseResponse, error)\<close>: \<open>Inr\<close> the response, \<open>Inl\<close> the error.\<close>

definition Parse :: "goldmark \<Rightarrow> (string \<Rightarrow> string) \<Rightarrow> string \<Rightarrow> string + ParseResponse" where
  "Parse p md5hex content =
     (if content = [] then
        Inr \<lparr>prHTML = [], prBlocks = [], prChanges = [], Success = True, Error = []\<rparr>
      else
        (let doc = gm_Parse p content in
         case gm_Render p content doc of
           Inl err \<Rightarrow> Inl (''failed to render HTML: '' @ err)
         | Inr html \<Rightarrow>
             Inr \<lparr>prHTML = html, prBlocks = extractBlocks p md5hex doc content,
                  prChanges = [], Success = True, Error = []\<rparr>))"

definition ParseIncremental :: "goldmark \<Rightarrow> (string \<Rightarrow> string) \<Rightarrow> string \<Rightarrow> string \<Rightarrow> string + ParseResponse" where
  "ParseIncremental p md5hex content blockID = Parse p md5hex content"

definition DetectNotionSyntax :: "string \<Rightarrow> string" where
  "DetectNotionSyntax line =
     (let trimmed = TrimSpace line in
      if HasPrefix trimmed ''# '' then ''h1''
      else if HasPrefix trimmed ''## '' then ''h2''
      else if HasPrefix trimmed ''### '' then ''h3''
      else if HasPrefix trimmed ''#### '' then ''h4''
      else if HasPrefix trimmed ''##### '' then ''h5''
      else if HasPrefix trimmed ''###### '' then ''h6''
      else if HasPrefix trimmed ''- [ ]'' \<or> HasPrefix trimmed ''- [x]'' then ''checkbox''
      else if HasPrefix trimmed ''- '' \<or> HasPrefix trimmed ''* '' \<or> HasPrefix trimmed ''+ ''
        then ''unordered_list''
      else if length trimmed > 0 \<and> IsDigit_byte (trimmed ! 0)
              \<and> length (SplitN2 trimmed ''. '') = 2 then ''ordered_list''
      else if HasPrefix trimmed ''```'' then ''code_block''
      else if HasPrefix trimmed ''> '' then ''blockquote''
      else ''paragraph'')"

section \<open>The incremental parser (the \<open>package parser\<close> part of internal/models/types.go)\<close>

definition dq :: char where
  "dq = CHR 0x22"

definition renderLineToHTML :: "string \<Rightarrow> string \<Rightarrow> string" where
  "renderLineToHTML line syntaxType =
     (let trimmed = TrimSpace line in
      if syntaxType = ''h1'' then ''<h1>'' @ TrimPrefix trimmed ''# '' @ ''</h1>''
      else if syntaxType = ''h2'' then ''<h2>'' @ TrimPrefix trimmed ''## '' @ ''</h2>''
      else if syntaxType = ''h3'' then ''<h3>'' @ TrimPrefix trimmed ''### '' @ ''</h3>''
      else if syntaxType = ''h4'' then ''<h4>'' @ TrimPrefix trimmed ''#### '' @ ''</h4>''
      else if syntaxType = ''h5'' then ''<h5>'' @ TrimPrefix trimmed ''##### '' @ ''</h5>''
      else if syntaxType = ''h6'' then ''<h6>'' @ TrimPrefix trimmed ''###### '' @ ''</h6>''
      else if syntaxType = ''unordered_list'' then
        ''<ul><li>'' @ TrimPrefix (TrimPrefix (TrimPrefix trimmed ''- '') ''* '') ''+ '' @ ''</li></ul>''
      else if syntaxType = ''ordered_list'' then
        (let parts = SplitN2 trimmed ''. '' in
         if length parts = 2 then ''<ol><li>'' @ parts ! 1 @ ''</li></ol>''
         else ''<p>'' @ line @ ''</p>'')
      else if syntaxType = ''blockquote'' then
        ''<blockquote><p>'' @ TrimPrefix trimmed ''> '' @ ''</p></blockquote>''
      else if syntaxType = ''code_block'' then
        (if HasPrefix trimmed ''```'' then
           (let lang = TrimPrefix trimmed ''```'' in
            if lang = [] then ''<pre><code>''
            else ''<pre><code class='' @ [dq] @ ''language-'' @ lang @ [dq] @ ''>'')
         else ''<pre><code>'' @ line @ ''</code></pre>'')
      else if syntaxType = ''checkbox'' then
        (if Contains trimmed ''- [x]'' then
           ''<ul><li><input type='' @ [dq] @ ''checkbox'' @ [dq] @ '' checked disabled>''
             @ TrimSpace (Replace1 trimmed ''- [x]'' []) @ ''</li></ul>''
         else
           ''<ul><li><input type='' @ [dq] @ ''checkbox'' @ [dq] @ '' disabled>''
             @ TrimSpace (Replace1 trimmed ''- [ ]'' []) @ ''</li></ul>'')
      else ''<p>'' @ line @ ''</p>'')"

definition generateLineID :: "(string \<Rightarrow> string) \<Rightarrow> string \<Rightarrow> int \<Rightarrow> string" where
  "generateLineID md5hex line lineNumber =
     (let content = TrimSpace line;
          content = (if content = [] then ''empty'' else content)
      in take 12 (''line_'' @ Itoa lineNumber @ ''_'' @ md5hex content))"

text \<open>
  The loop of \<open>ParseLine\<close> over the blocks of goldmark's result: the first block that
  qualifies updates the line's block, and the loop stops there.
\<close>

fun use_goldmark :: "string \<Rightarrow> Block \<Rightarrow> (string \<times> Block) list \<Rightarrow> Block" where
  "use_goldmark syntaxType block [] = block"
| "use_goldmark syntaxType block ((k, goldmarkBlock) # rest) =
     (if Type goldmarkBlock \<noteq> ''unknown'' \<and> HTML goldmarkBlock \<noteq> [] \<and>
         (syntaxType = ''paragraph'' \<or> syntaxType = Type goldmarkBlock)
      then (let block = block\<lparr>HTML := HTML goldmarkBlock\<rparr>
            in if syntaxType = ''paragraph'' then block\<lparr>Type := Type goldmarkBlock\<rparr> else block)
      else use_goldmark syntaxType block rest)"

text \<open>\<open>ParseLine\<close> returns a pointer to a fresh block, or \<open>nil\<close> (\<open>None\<close>).\<close>

definition ParseLine :: "goldmark \<Rightarrow> (string \<Rightarrow> string) \<Rightarrow> string \<Rightarrow> int \<Rightarrow> Block option" where
  "ParseLine p md5hex line lineNumber =
     (let trimmed = TrimSpace line in
      if trimmed = [] then None
      else
        (let syntaxType = DetectNotionSyntax line;
             block = \<lparr>ID = generateLineID md5hex line lineNumber, Type = syntaxType, Level = 0,
                      Content = line, HTML = renderLineToHTML line syntaxType,
                      Position = \<lparr>Start = 0, End = int (length line), Line = lineNumber\<rparr>,
                      Children = []\<rparr>
         in case Parse p md5hex line of
              Inr result \<Rightarrow>
                if length (prBlocks result) > 0
                then Some (use_goldmark syntaxType block (prBlocks result))
                else Some block
            | Inl err \<Rightarrow> Some block))"


section \<open>The classifier as the specification words it\<close>

text \<open>
  The rules of the specification, to compare \<open>DetectNotionSyntax\<close> with.  A line
  starts with a text when it is that text followed by a rest; a heading of level \<open>k\<close>
  is \<open>k\<close> number signs, one space and a rest; the white space is the list of the
  UTF-8 encodings of the characters that \<open>unicode.IsSpace\<close> accepts; \<open>t\<close> is the
  trimmed form of a line when the line is \<open>t\<close> between two runs of white space and
  \<open>t\<close> neither starts nor ends with white space.
\<close>

definition starts_with :: "string \<Rightarrow> string \<Rightarrow> bool" where
  "starts_with t p = (\<exists>rest. t = p @ rest)"

definition ends_with :: "string \<Rightarrow> string \<Rightarrow> bool" where
  "ends_with t p = (\<exists>front. t = front @ p)"

definition space_runes :: "string list" where
  "space_runes =
     [[CHR 0x09], [CHR 0x0A], [CHR 0x0B], [CHR 0x0C], [CHR 0x0D], [CHR 0x20],
      [CHR 0xC2, CHR 0x85], [CHR 0xC2, CHR 0xA0],
      [CHR 0xE1, CHR 0x9A, CHR 0x80],
      [CHR 0xE2, CHR 0x80, CHR 0x80], [CHR 0xE2, CHR 0x80, CHR 0x81],
      [CHR 0xE2, CHR 0x80, CHR 0x82], [CHR 0xE2, CHR 0x80, CHR 0x83],
      [CHR 0xE2, CHR 0x80, CHR 0x84], [CHR 0xE2, CHR 0x80, CHR 0x85],
      [CHR 0xE2, CHR 0x80, CHR 0x86], [CHR 0xE2, CHR 0x80, CHR 0x87],
      [CHR 0xE2, CHR 0x80, CHR 0x88], [CHR 0xE2, CHR 0x80, CHR 0x89],
      [CHR 0xE2, CHR 0x80, CHR 0x8A],
      [CHR 0xE2, CHR 0x80, CHR 0xA8], [CHR 0xE2, CHR 0x80, CHR 0xA9],
      [CHR 0xE2, CHR 0x80, CHR 0xAF],
      [CHR 0xE2, CHR 0x81, CHR 0x9F],
      [CHR 0xE3, CHR 0x80, CHR 0x80]]"

definition white_space :: "string \<Rightarrow> bool" where
  "white_space s = (\<exists>ws. s = concat ws \<and> set ws \<subseteq> set space_runes)"

definition trimmed_of :: "string \<Rightarrow> string \<Rightarrow> bool" where
  "trimmed_of line t =
     ((\<exists>l r. line = l @ t @ r \<and> white_space l \<and> white_space r) \<and>
      (\<forall>w \<in> set space_runes. \<not> starts_with t w \<and> \<not> ends_with t w))"

definition is_heading :: "nat \<Rightarrow> string \<Rightarrow> bool" where
  "is_heading k t = (\<exists>rest. t = replicate k (CHR ''#'') @ CHR '' '' # rest)"

definition starts_with_digit :: "string \<Rightarrow> bool" where
  "starts_with_digit t = (\<exists>d rest. t = d # rest \<and> d \<in> set ''0123456789'')"

definition has_substring :: "string \<Rightarrow> string \<Rightarrow> bool" where
  "has_substring t sub = (\<exists>u v. t = u @ sub @ v)"

definition Classify_spec :: "string \<Rightarrow> string" where
  "Classify_spec t =
     (if is_heading 1 t then ''h1''
      else if is_heading 2 t then ''h2''
      else if is_heading 3 t then ''h3''
      else if is_heading 4 t then ''h4''
      else if is_heading 5 t then ''h5''
      else if is_heading 6 t then ''h6''
      else if starts_with t ''- [ ]'' \<or> starts_with t ''- [x]'' then ''checkbox''
      else if starts_with t ''- '' \<or> starts_with t ''* '' \<or> starts_with t ''+ '' then ''unordered_list''
      else if starts_with_digit t \<and> has_substring t ''. '' then ''ordered_list''
      else if starts_with t ''```'' then ''code_block''
      else if starts_with t ''> '' then ''blockquote''
      else ''paragraph'')"


section \<open>The connection hub (the \<open>package websocket\<close> part of internal/models/types.go)\<close>

text \<open>
  Modelled from the spec: the type \<open>Client\<close>, whose declaration is not among the
  files.  The hub's code uses two of its fields, \<open>send\<close>, a channel of byte strings,
  and \<open>subscribedDocuments\<close>, a \<open>map[string]bool\<close>; the specification says that each
  handle owns a bounded outbound buffer and its own set of subscribed documents.  A
  channel is its queue, its capacity (at least one for a bounded buffer) and whether it
  has been closed; each client owns its channel.
\<close>

record Chan =
  buf :: "string list"
  cap :: nat
  chClosed :: bool

record Client =
  send :: Chan
  subscribedDocuments :: "string \<Rightarrow> bool"

text \<open>
  The hub of the code: \<open>clients map[*Client]bool\<close> is the list of its keys, in the
  order in which Go happens to iterate over the map (no key twice); the clients
  themselves live in a store indexed by their addresses.  The channels \<open>broadcast\<close>,
  \<open>register\<close> and \<open>unregister\<close> of the hub only carry requests to the loop of \<open>Run\<close>
  and are left out.  Each function below is the sequential body of the Go function;
  what other goroutines do to the hub while it runs is outside the model.
\<close>

record Hub =
  clients :: "addr list"
  clientStore :: "addr \<Rightarrow> Client"

text \<open>The two run-time panics of Go's channels.\<close>

datatype hub_error = SendOnClosedChannel | CloseOfClosedChannel

text \<open>
  \<open>select { case ch <- data: ... default: ... }\<close>: the send is taken when the buffer
  has room (\<open>Some\<close> the channel after it), the default branch otherwise (\<open>None\<close>); on
  a closed channel the send panics.  \<open>close(ch)\<close> panics on a closed channel.
\<close>

definition select_send :: "Chan \<Rightarrow> string \<Rightarrow> hub_error + Chan option" where
  "select_send ch data =
     (if chClosed ch then Inl SendOnClosedChannel
      else if length (buf ch) < cap ch then Inr (Some (ch\<lparr>buf := buf ch @ [data]\<rparr>))
      else Inr None)"

definition close_chan :: "Chan \<Rightarrow> hub_error + Chan" where
  "close_chan ch = (if chClosed ch then Inl CloseOfClosedChannel else Inr (ch\<lparr>chClosed := True\<rparr>))"

text \<open>
  The statement that \<open>sendToClient\<close> and \<open>broadcastToDocument\<close> both execute on one
  client:
  \<^verbatim>\<open>select { case client.send <- data: default: close(client.send); delete(h.clients, client) }\<close>
\<close>

definition send_or_drop :: "Hub \<Rightarrow> addr \<Rightarrow> string \<Rightarrow> hub_error + Hub" where
  "send_or_drop h client data =
     (case select_send (send (clientStore h client)) data of
        Inl e \<Rightarrow> Inl e
      | Inr (Some ch) \<Rightarrow>
          Inr (h\<lparr>clientStore := (clientStore h)(client := (clientStore h client)\<lparr>send := ch\<rparr>)\<rparr>)
      | Inr None \<Rightarrow>
          (case close_chan (send (clientStore h client)) of
             Inl e \<Rightarrow> Inl e
           | Inr ch \<Rightarrow>
               Inr (h\<lparr>clientStore := (clientStore h)(client := (clientStore h client)\<lparr>send := ch\<rparr>),
                      clients := removeAll client (clients h)\<rparr>)))"

text \<open>
  \<open>json.Marshal\<close> is the parameter \<open>marshal\<close>: \<open>Inr\<close> the bytes, \<open>Inl\<close> the error, on
  which both functions only log and return.
\<close>

definition sendToClient :: "('r \<Rightarrow> string + string) \<Rightarrow> Hub \<Rightarrow> addr \<Rightarrow> 'r \<Rightarrow> hub_error + Hub" where
  "sendToClient marshal h client response =
     (case marshal response of
        Inl err \<Rightarrow> Inr h
      | Inr data \<Rightarrow> send_or_drop h client data)"

text \<open>
  The loop \<open>for client := range h.clients\<close> of \<open>broadcastToDocument\<close>.  It deletes
  no entry but the one it is at, so it visits every client that was in the map when it
  started, once.
\<close>

fun broadcast_loop :: "addr list \<Rightarrow> string \<Rightarrow> string \<Rightarrow> Hub \<Rightarrow> hub_error + Hub" where
  "broadcast_loop [] documentID data h = Inr h"
| "broadcast_loop (client # rest) documentID data h =
     (if subscribedDocuments (clientStore h client) documentID then
        (case send_or_drop h client data of
           Inl e \<Rightarrow> Inl e
         | Inr h' \<Rightarrow> broadcast_loop rest documentID data h')
      else broadcast_loop rest documentID data h)"

definition broadcastToDocument :: "('r \<Rightarrow> string + string) \<Rightarrow> Hub \<Rightarrow> string \<Rightarrow> 'r \<Rightarrow> hub_error + Hub" where
  "broadcastToDocument marshal h documentID response =
     (case marshal response of
        Inl err \<Rightarrow> Inr h
      | Inr data \<Rightarrow> broadcast_loop (clients h) documentID data h)"

text \<open>The case \<open>client := <-h.unregister\<close> of \<open>Run\<close>.\<close>

definition unregister :: "Hub \<Rightarrow> addr \<Rightarrow> hub_error + Hub" where
  "unregister h client =
     (if client \<in> set (clients h) then
        (case close_chan (send (clientStore h client)) of
           Inl e \<Rightarrow> Inl e
         | Inr ch \<Rightarrow>
             Inr (h\<lparr>clients := removeAll client (clients h),
                    clientStore := (clientStore h)(client := (clientStore h client)\<lparr>send := ch\<rparr>)\<rparr>))
      else Inr h)"

text \<open>
  What the statements about a dispatch speak of: a client is a slow consumer when its
  buffer is full, and the hub is well formed when no client is twice in the map and
  the channel of every live client is open (the hub closes a channel only together
  with deleting its client).
\<close>

definition buffer_full :: "Client \<Rightarrow> bool" where
  "buffer_full c = (\<not> length (buf (send c)) < cap (send c))"

definition hub_ok :: "Hub \<Rightarrow> bool" where
  "hub_ok h = (distinct (clients h) \<and> (\<forall>c \<in> set (clients h). \<not> chClosed (send (clientStore h c))))"

text \<open>
  The effect of a dispatch on one client, and the clients it drops.
\<close>

definition after_dispatch :: "string \<Rightarrow> string \<Rightarrow> Client \<Rightarrow> Client" where
  "after_dispatch documentID data c =
     (if subscribedDocuments c documentID then
        (if buffer_full c then c\<lparr>send := (send c)\<lparr>chClosed := True\<rparr>\<rparr>
         else c\<lparr>send := (send c)\<lparr>buf := buf (send c) @ [data]\<rparr>\<rparr>)
      else c)"

definition dropped :: "Hub \<Rightarrow> string \<Rightarrow> addr \<Rightarrow> bool" where
  "dropped h documentID c =
     (subscribedDocuments (clientStore h c) documentID \<and> buffer_full (clientStore h c))"

text \<open>
  A hub with two clients subscribed to the document \<open>doc\<close>: client 0 has a buffer of
  capacity one that is full, client 1 has room.
\<close>

definition slow_client :: Client where
  "slow_client = \<lparr>send = \<lparr>buf = [''first''], cap = 1, chClosed = False\<rparr>,
                  subscribedDocuments = (\<lambda>d. d = ''doc'')\<rparr>"

definition ready_client :: Client where
  "ready_client = \<lparr>send = \<lparr>buf = [], cap = 1, chClosed = False\<rparr>,
                   subscribedDocuments = (\<lambda>d. d = ''doc'')\<rparr>"

definition two_clients :: Hub where
  "two_clients = \<lparr>clients = [0, 1],
                  clientStore = (\<lambda>a. if a = 0 then slow_client else ready_client)\<rparr>"


section \<open>Block-level diff (pkg/diff/block_diff.go, BlockDiffer)\<close>

text \<open>
  The blocks that the differ compares and copies are objects behind pointers, and its
  claims speak of sharing, so the objects live in an explicit store: \<open>cells\<close> maps an
  address to the object there, \<open>nxt\<close> is the next address that an allocation hands out.
  The addresses below \<open>nxt\<close> are the allocated ones.  A \<open>map[string]*models.Block\<close> is
  an association list from ids to pointers, with no id twice; its order stands for the
  order in which Go happens to iterate over the map.
\<close>

record Heap =
  cells :: "addr \<Rightarrow> Block"
  nxt :: addr

type_synonym snapshot = "(string \<times> ptr) list"

record BlockDiffer =
  previousBlocks :: snapshot

definition NewBlockDiffer :: BlockDiffer where
  "NewBlockDiffer = \<lparr>previousBlocks = []\<rparr>"

text \<open>\<open>&models.Block{...}\<close>: a new object at a fresh address.\<close>

definition alloc :: "Heap \<Rightarrow> Block \<Rightarrow> Heap \<times> addr" where
  "alloc h b = (h\<lparr>cells := (cells h)(nxt h := b), nxt := Suc (nxt h)\<rparr>, nxt h)"

text \<open>The only panic of this code: reading a field through a \<open>nil\<close> pointer.\<close>

datatype diff_error = NilPointerDereference

text \<open>
  \<open>computeBlockHash\<close>: the MD5 sum, in hexadecimal, of
  \<open>fmt.Sprintf("%s|%s|%d|%s", block.Type, block.Content, block.Level, block.HTML)\<close>.
\<close>

definition computeBlockHash :: "(string \<Rightarrow> string) \<Rightarrow> Heap \<Rightarrow> ptr \<Rightarrow> diff_error + string" where
  "computeBlockHash md5hex h block =
     (case block of
        None \<Rightarrow> Inl NilPointerDereference
      | Some a \<Rightarrow>
          Inr (md5hex (Type (cells h a) @ ''|'' @ Content (cells h a) @ ''|''
                       @ Itoa (Level (cells h a)) @ ''|'' @ HTML (cells h a))))"

definition hasBlockChanged :: "(string \<Rightarrow> string) \<Rightarrow> Heap \<Rightarrow> ptr \<Rightarrow> ptr \<Rightarrow> diff_error + bool" where
  "hasBlockChanged md5hex h oldBlock newBlock =
     (case computeBlockHash md5hex h oldBlock of
        Inl e \<Rightarrow> Inl e
      | Inr oldHash \<Rightarrow>
          (case computeBlockHash md5hex h newBlock of
             Inl e \<Rightarrow> Inl e
           | Inr newHash \<Rightarrow> Inr (oldHash \<noteq> newHash)))"

text \<open>
  The first loop of \<open>ComputeDiff\<close>, over the new blocks; \<open>seenBlocks\<close> is a
  \<open>map[string]bool\<close>, read with \<open>false\<close> for a missing key.
\<close>

fun diff_new ::
  "(string \<Rightarrow> string) \<Rightarrow> Heap \<Rightarrow> snapshot \<Rightarrow> snapshot \<Rightarrow> BlockChange list \<Rightarrow> (string \<Rightarrow> bool)
     \<Rightarrow> diff_error + (BlockChange list \<times> (string \<Rightarrow> bool))" where
  "diff_new md5hex h prev [] changes seenBlocks = Inr (changes, seenBlocks)"
| "diff_new md5hex h prev ((blockID, newBlock) # rest) changes seenBlocks =
     (let seenBlocks = seenBlocks(blockID := True) in
      case map_of prev blockID of
        Some oldBlock \<Rightarrow>
          (case hasBlockChanged md5hex h oldBlock newBlock of
             Inl e \<Rightarrow> Inl e
           | Inr changed \<Rightarrow>
               if changed then
                 diff_new md5hex h prev rest
                   (changes @ [\<lparr>bcType = ''modified'', BlockID = blockID, bcBlock = newBlock\<rparr>])
                   seenBlocks
               else diff_new md5hex h prev rest changes seenBlocks)
      | None \<Rightarrow>
          diff_new md5hex h prev rest
            (changes @ [\<lparr>bcType = ''added'', BlockID = blockID, bcBlock = newBlock\<rparr>])
            seenBlocks)"

text \<open>The second loop, over the previous blocks.\<close>

fun diff_removed :: "snapshot \<Rightarrow> (string \<Rightarrow> bool) \<Rightarrow> BlockChange list \<Rightarrow> BlockChange list" where
  "diff_removed [] seenBlocks changes = changes"
| "diff_removed ((blockID, oldBlock) # rest) seenBlocks changes =
     (if \<not> seenBlocks blockID then
        diff_removed rest seenBlocks
          (changes @ [\<lparr>bcType = ''removed'', BlockID = blockID, bcBlock = oldBlock\<rparr>])
      else diff_removed rest seenBlocks changes)"

text \<open>
  \<open>copyBlock\<close> calls itself on the children, which are reached through pointers: on a
  store whose children pointers run in a cycle it never returns.  The first argument
  bounds the depth of the calls, and \<open>None\<close> says that the bound was not enough.

  The loop over the children writes the copy of child \<open>i\<close> into element \<open>i\<close> of the
  fresh slice \<open>copied.Children\<close>, which \<open>make\<close> has filled with \<open>nil\<close>.
\<close>

fun copyChildren ::
  "(Heap \<Rightarrow> ptr \<Rightarrow> (Heap \<times> ptr) option) \<Rightarrow> Heap \<Rightarrow> addr \<Rightarrow> nat \<Rightarrow> ptr list \<Rightarrow> Heap option" where
  "copyChildren cp h copied i [] = Some h"
| "copyChildren cp h copied i (child # rest) =
     (case cp h child of
        None \<Rightarrow> None
      | Some (h', q) \<Rightarrow>
          copyChildren cp
            (h'\<lparr>cells := (cells h')(copied :=
                  (cells h' copied)\<lparr>Children := (Children (cells h' copied))[i := q]\<rparr>)\<rparr>)
            copied (Suc i) rest)"

primrec copyBlock :: "nat \<Rightarrow> Heap \<Rightarrow> ptr \<Rightarrow> (Heap \<times> ptr) option" where
  "copyBlock 0 = (\<lambda>h block. None)"
| "copyBlock (Suc n) = (\<lambda>h block.
     case block of
       None \<Rightarrow> Some (h, None)
     | Some a \<Rightarrow>
         (let b = cells h a;
              (h1, copied) = alloc h \<lparr>ID = ID b, Type = Type b, Level = Level b, Content = Content b,
                                       HTML = HTML b, Position = Position b, Children = []\<rparr>
          in if length (Children b) > 0 then
               (let h2 = h1\<lparr>cells := (cells h1)(copied :=
                            (cells h1 copied)\<lparr>Children := replicate (length (Children b)) None\<rparr>)\<rparr>
                in case copyChildren (copyBlock n) h2 copied 0 (Children b) of
                     None \<Rightarrow> None
                   | Some h3 \<Rightarrow> Some (h3, Some copied))
             else Some (h1, Some copied)))"

fun copyBlocks :: "nat \<Rightarrow> Heap \<Rightarrow> snapshot \<Rightarrow> snapshot \<Rightarrow> (Heap \<times> snapshot) option" where
  "copyBlocks fuel h [] copied = Some (h, copied)"
| "copyBlocks fuel h ((blockID, block) # rest) copied =
     (case copyBlock fuel h block of
        None \<Rightarrow> None
      | Some (h', q) \<Rightarrow> copyBlocks fuel h' rest (map_put copied blockID q))"

text \<open>
  \<open>ComputeDiff\<close>: the change list, and the store and the differ after the call.  A
  panic of the first loop ends the call before anything is written
  (\<open>Some (Inl e)\<close>); \<open>None\<close> says that the bound on the depth of \<open>copyBlock\<close> was not
  enough.
\<close>

definition ComputeDiff ::
  "nat \<Rightarrow> (string \<Rightarrow> string) \<Rightarrow> Heap \<Rightarrow> BlockDiffer \<Rightarrow> snapshot
     \<Rightarrow> (diff_error + (BlockChange list \<times> Heap \<times> BlockDiffer)) option" where
  "ComputeDiff fuel md5hex h d newBlocks =
     (case diff_new md5hex h (previousBlocks d) newBlocks [] (\<lambda>blockID. False) of
        Inl e \<Rightarrow> Some (Inl e)
      | Inr (changes, seenBlocks) \<Rightarrow>
          (let changes = diff_removed (previousBlocks d) seenBlocks changes in
           case copyBlocks fuel h newBlocks [] of
             None \<Rightarrow> None
           | Some (h', copied) \<Rightarrow> Some (Inr (changes, h', d\<lparr>previousBlocks := copied\<rparr>))))"

text \<open>
  The value of a block: its fields and the values of its children, \<open>BNil\<close> for a
  \<open>nil\<close> pointer.  \<open>tree_on P n h p\<close> reads the value behind \<open>p\<close> from the store if
  that is a tree of depth at most \<open>n\<close> whose objects all lie at addresses that satisfy
  \<open>P\<close>, and is \<open>None\<close> otherwise.
\<close>

datatype btree = BNil | BNode string string int string string Position "btree list"

primrec tree_on :: "(addr \<Rightarrow> bool) \<Rightarrow> nat \<Rightarrow> Heap \<Rightarrow> ptr \<Rightarrow> btree option" where
  "tree_on P 0 = (\<lambda>h p. None)"
| "tree_on P (Suc n) = (\<lambda>h p.
     case p of
       None \<Rightarrow> Some BNil
     | Some a \<Rightarrow>
         if P a then
           (case those (map (tree_on P n h) (Children (cells h a))) of
              None \<Rightarrow> None
            | Some ts \<Rightarrow>
                Some (BNode (ID (cells h a)) (Type (cells h a)) (Level (cells h a))
                        (Content (cells h a)) (HTML (cells h a)) (Position (cells h a)) ts))
         else None)"

definition allocated :: "Heap \<Rightarrow> addr \<Rightarrow> bool" where
  "allocated h a = (a < nxt h)"

definition fresh_between :: "Heap \<Rightarrow> Heap \<Rightarrow> addr \<Rightarrow> bool" where
  "fresh_between h h' a = (nxt h \<le> a \<and> a < nxt h')"

text \<open>
  A snapshot is well formed when no id occurs twice, no block is \<open>nil\<close>, and every
  block is a tree of allocated objects of depth at most \<open>fuel\<close>.  Its value maps each
  id to the value of its block.
\<close>

definition snapshot_ok :: "nat \<Rightarrow> Heap \<Rightarrow> snapshot \<Rightarrow> bool" where
  "snapshot_ok fuel h s =
     (distinct (map fst s) \<and>
      (\<forall>e \<in> set s. snd e \<noteq> None \<and> tree_on (allocated h) fuel h (snd e) \<noteq> None))"

definition snapshot_value :: "nat \<Rightarrow> Heap \<Rightarrow> snapshot \<Rightarrow> string \<Rightarrow> btree option" where
  "snapshot_value fuel h s blockID =
     (case map_of s blockID of None \<Rightarrow> None | Some p \<Rightarrow> tree_on (allocated h) fuel h p)"


section \<open>Properties of the line-level diff\<close>

lemma Split_nl_nonempty: "Split_nl s \<noteq> []"
  by (induction s) (auto split: list.splits)

lemma Join_Split_nl: "Join_nl (Split_nl s) = s"
proof (induction s)
  case Nil
  then show ?case by simp
next
  case (Cons c cs)
  obtain l ls where sp: "Split_nl cs = l # ls"
    using Split_nl_nonempty [of cs] by (cases "Split_nl cs") auto
  show ?case
  proof (cases "c = newline")
    case True
    with Cons sp show ?thesis by simp
  next
    case False
    with Cons sp show ?thesis by (cases ls) auto
  qed
qed

lemma script_ok_0: "script_ok oldLines newLines 0 0 []"
  by (simp add: script_ok_def)

lemma length_old_side:
  "script_ok oldLines newLines i j pre \<Longrightarrow> i \<le> length oldLines \<Longrightarrow> length (filter old_side pre) = i"
proof -
  assume a: "script_ok oldLines newLines i j pre" and b: "i \<le> length oldLines"
  from a have "length (map lcContent (filter old_side pre)) = length (take i oldLines)"
    by (simp add: script_ok_def)
  with b show ?thesis by simp
qed

lemma script_ok_unchanged:
  assumes "script_ok oldLines newLines i j pre" "i < length oldLines" "j < length newLines"
    "oldLines ! i = newLines ! j"
  shows "script_ok oldLines newLines (Suc i) (Suc j)
           (pre @ [\<lparr>lcType = ''unchanged'', LineNum = int (Suc j), lcContent = newLines ! j\<rparr>])"
proof -
  have len: "length (filter old_side pre) = i"
    using assms length_old_side by simp
  show ?thesis
    using assms len
    by (auto simp add: script_ok_def new_side_def old_side_def take_Suc_conv_app_nth nth_append)
qed

lemma script_ok_added:
  assumes "script_ok oldLines newLines i j pre" "j < length newLines"
  shows "script_ok oldLines newLines i (Suc j)
           (pre @ [\<lparr>lcType = ''added'', LineNum = int (Suc j), lcContent = newLines ! j\<rparr>])"
  using assms
  by (auto simp add: script_ok_def new_side_def old_side_def take_Suc_conv_app_nth)

lemma script_ok_removed:
  assumes "script_ok oldLines newLines i j pre" "i < length oldLines"
  shows "script_ok oldLines newLines (Suc i) j
           (pre @ [\<lparr>lcType = ''removed'', LineNum = int (Suc i), lcContent = oldLines ! i\<rparr>])"
proof -
  have len: "length (filter old_side pre) = i"
    using assms length_old_side by simp
  show ?thesis
    using assms len
    by (auto simp add: script_ok_def new_side_def old_side_def take_Suc_conv_app_nth nth_append)
qed


lemma backtrack_done:
  "backtrack dp oldLines newLines 0 0 changes = Some changes"
  by (subst backtrack.simps) simp

lemma backtrack_unchanged:
  assumes "i > 0" "j > 0" "oldLines ! (i - 1) = newLines ! (j - 1)"
  shows "backtrack dp oldLines newLines i j changes =
         backtrack dp oldLines newLines (i - 1) (j - 1)
           (\<lparr>lcType = ''unchanged'', LineNum = int j, lcContent = newLines ! (j - 1)\<rparr> # changes)"
  using assms by (subst backtrack.simps) simp

lemma backtrack_added:
  assumes "j > 0" "\<not> (i > 0 \<and> j > 0 \<and> oldLines ! (i - 1) = newLines ! (j - 1))"
    "i = 0 \<or> dp ! i ! (j - 1) \<ge> dp ! (i - 1) ! j"
  shows "backtrack dp oldLines newLines i j changes =
         backtrack dp oldLines newLines i (j - 1)
           (\<lparr>lcType = ''added'', LineNum = int j, lcContent = newLines ! (j - 1)\<rparr> # changes)"
  using assms by (subst backtrack.simps) auto

lemma backtrack_removed:
  assumes "i > 0" "\<not> (i > 0 \<and> j > 0 \<and> oldLines ! (i - 1) = newLines ! (j - 1))"
    "\<not> (j > 0 \<and> (i = 0 \<or> dp ! i ! (j - 1) \<ge> dp ! (i - 1) ! j))"
  shows "backtrack dp oldLines newLines i j changes =
         backtrack dp oldLines newLines (i - 1) j
           (\<lparr>lcType = ''removed'', LineNum = int i, lcContent = oldLines ! (i - 1)\<rparr> # changes)"
  using assms by (subst backtrack.simps) auto

lemma backtrack_ok:
  "i \<le> length oldLines \<Longrightarrow> j \<le> length newLines \<Longrightarrow>
   \<exists>pre. backtrack dp oldLines newLines i j changes = Some (pre @ changes) \<and>
         script_ok oldLines newLines i j pre"
proof (induction dp oldLines newLines i j changes rule: backtrack.induct)
  case (1 dp oldLines newLines i j changes)
  let ?U = "\<lparr>lcType = ''unchanged'', LineNum = int j, lcContent = newLines ! (j - 1)\<rparr>"
  let ?A = "\<lparr>lcType = ''added'', LineNum = int j, lcContent = newLines ! (j - 1)\<rparr>"
  let ?R = "\<lparr>lcType = ''removed'', LineNum = int i, lcContent = oldLines ! (i - 1)\<rparr>"
  show ?case
  proof (cases "i > 0 \<or> j > 0")
    case False
    then have "backtrack dp oldLines newLines i j changes = Some ([] @ changes)"
      by (simp add: backtrack_done)
    with False show ?thesis
      using script_ok_0 by fastforce
  next
    case loop: True
    show ?thesis
    proof (cases "i > 0 \<and> j > 0 \<and> oldLines ! (i - 1) = newLines ! (j - 1)")
      case same: True
      have le: "i - 1 \<le> length oldLines" "j - 1 \<le> length newLines"
          using "1.prems" by simp_all
        from "1.IH"(1) [OF loop same le]
        obtain pre where run: "backtrack dp oldLines newLines (i - 1) (j - 1) (?U # changes) = Some (pre @ ?U # changes)"
          and ok: "script_ok oldLines newLines (i - 1) (j - 1) pre"
          by blast
      from same "1.prems" have "i - 1 < length oldLines" "j - 1 < length newLines"
        "oldLines ! (i - 1) = newLines ! (j - 1)" by auto
      from script_ok_unchanged [OF ok this] same
      have "script_ok oldLines newLines i j (pre @ [?U])" by simp
      moreover have "backtrack dp oldLines newLines i j changes = Some ((pre @ [?U]) @ changes)"
        using same run by (simp add: backtrack_unchanged)
      ultimately show ?thesis by blast
    next
      case differ: False
      show ?thesis
      proof (cases "j > 0 \<and> (i = 0 \<or> dp ! i ! (j - 1) \<ge> dp ! (i - 1) ! j)")
        case add: True
        have le: "i \<le> length oldLines" "j - 1 \<le> length newLines"
          using "1.prems" by simp_all
        from "1.IH"(2) [OF loop differ add le]
        obtain pre where run: "backtrack dp oldLines newLines (i) (j - 1) (?A # changes) = Some (pre @ ?A # changes)"
          and ok: "script_ok oldLines newLines (i) (j - 1) pre"
          by blast
        from add "1.prems" have "j - 1 < length newLines" by auto
        from script_ok_added [OF ok this] add
        have "script_ok oldLines newLines i j (pre @ [?A])" by simp
        moreover have "backtrack dp oldLines newLines i j changes = Some ((pre @ [?A]) @ changes)"
          using backtrack_added [of j i oldLines newLines dp changes] differ add run by simp
        ultimately show ?thesis by blast
      next
        case noadd: False
        with loop have ipos: "i > 0" by auto
        have le: "i - 1 \<le> length oldLines" "j \<le> length newLines"
          using "1.prems" by simp_all
        from "1.IH"(3) [OF loop differ noadd ipos le]
        obtain pre where run: "backtrack dp oldLines newLines (i - 1) (j) (?R # changes) = Some (pre @ ?R # changes)"
          and ok: "script_ok oldLines newLines (i - 1) (j) pre"
          by blast
        from ipos "1.prems" have "i - 1 < length oldLines" by auto
        from script_ok_removed [OF ok this] ipos
        have "script_ok oldLines newLines i j (pre @ [?R])" by simp
        moreover have "backtrack dp oldLines newLines i j changes = Some ((pre @ [?R]) @ changes)"
          using backtrack_removed [of i j oldLines newLines dp changes] differ noadd ipos run by simp
        ultimately show ?thesis by blast
      qed
    qed
  qed
qed

lemma computeLCS_ok:
  "\<exists>cs. computeLCS oldLines newLines = Some cs \<and>
        script_ok oldLines newLines (length oldLines) (length newLines) cs"
  using backtrack_ok [of "length oldLines" oldLines "length newLines" newLines
      "fill_table oldLines newLines" "[]"]
  by (simp add: computeLCS_def)


lemma sorted_map_int_upt: "sorted (map int [m ..< n])"
  by (simp add: sorted_map sorted_wrt_map sorted_wrt_iff_nth_less)

lemma sort_new_side:
  assumes "map LineNum xs = map int [1 ..< Suc j]"
  shows "sort_key LineNum xs = xs"
proof -
  have "sorted (map LineNum xs)" by (simp only: assms sorted_map_int_upt)
  then show ?thesis by (rule sort_key_id_if_sorted)
qed

text \<open>
  Claim C1, as amended.  For every pair of texts, \<open>ComputeLineDiff\<close> returns a script
  such that
  \<^item> its added and unchanged entries, sorted by their recorded line number, carry the
    lines of the new text, and joining them with newlines gives the new text back; the
    recorded numbers are \<open>1, 2, ...\<close> in the order of the script;
  \<^item> its removed and unchanged entries, in the order of the script, carry the lines of
    the old text, and joining them gives the old text back.  Only a removed entry
    records an old line number: it is the entry's place among the removed and unchanged
    entries, and the entry's content is the old line of that number.  An unchanged
    entry records its new line number, so the recorded numbers do not order the old side.
\<close>

theorem ComputeLineDiff_roundtrip:
  "\<exists>cs. ComputeLineDiff oldText newText = Some cs \<and>
     Join_nl (map lcContent (sort_key LineNum (filter new_side cs))) = newText \<and>
     map LineNum (filter new_side cs) = map int [1 ..< Suc (length (Split_nl newText))] \<and>
     Join_nl (map lcContent (filter old_side cs)) = oldText \<and>
     (\<forall>k < length (filter old_side cs).
        lcType (filter old_side cs ! k) = ''removed'' \<longrightarrow>
        LineNum (filter old_side cs ! k) = int (Suc k)) \<and>
     (\<forall>c \<in> set cs. lcType c = ''removed'' \<longrightarrow>
        1 \<le> LineNum c \<and> nat (LineNum c) \<le> length (Split_nl oldText) \<and>
        lcContent c = Split_nl oldText ! (nat (LineNum c) - 1))"
proof -
  obtain cs where run: "computeLCS (Split_nl oldText) (Split_nl newText) = Some cs"
    and ok: "script_ok (Split_nl oldText) (Split_nl newText)
               (length (Split_nl oldText)) (length (Split_nl newText)) cs"
    using computeLCS_ok by blast
  from ok have nums: "map LineNum (filter new_side cs) = map int [1 ..< Suc (length (Split_nl newText))]"
    unfolding script_ok_def by blast
  from ok have "map lcContent (filter new_side cs) = Split_nl newText"
    by (simp add: script_ok_def)
  then have new: "Join_nl (map lcContent (sort_key LineNum (filter new_side cs))) = newText"
    using sort_new_side [OF nums] by (simp add: Join_Split_nl)
  from ok have lines: "map lcContent (filter old_side cs) = Split_nl oldText"
    by (simp add: script_ok_def)
  then have old: "Join_nl (map lcContent (filter old_side cs)) = oldText"
    by (simp add: Join_Split_nl)
  from ok have pos: "\<forall>k < length (filter old_side cs).
        lcType (filter old_side cs ! k) = ''removed'' \<longrightarrow>
        LineNum (filter old_side cs ! k) = int (Suc k)"
    unfolding script_ok_def by blast
  have rem: "\<forall>c \<in> set cs. lcType c = ''removed'' \<longrightarrow>
        1 \<le> LineNum c \<and> nat (LineNum c) \<le> length (Split_nl oldText) \<and>
        lcContent c = Split_nl oldText ! (nat (LineNum c) - 1)"
  proof (intro ballI impI)
    fix c assume c: "c \<in> set cs" and r: "lcType c = ''removed''"
    then have "c \<in> set (filter old_side cs)" by (simp add: old_side_def)
    then obtain k where k: "k < length (filter old_side cs)" "filter old_side cs ! k = c"
      unfolding in_set_conv_nth by blast
    with pos r have n: "LineNum c = int (Suc k)" by auto
    from lines have len: "length (filter old_side cs) = length (Split_nl oldText)"
      by (metis length_map)
    from lines k have "lcContent c = Split_nl oldText ! k"
      by (metis nth_map)
    moreover have nk: "nat (LineNum c) = Suc k" unfolding n by (rule nat_int)
    moreover have "1 \<le> LineNum c" unfolding n by simp
    moreover have "Suc k \<le> length (Split_nl oldText)" using k(1) len by simp
    ultimately show "1 \<le> LineNum c \<and> nat (LineNum c) \<le> length (Split_nl oldText) \<and>
        lcContent c = Split_nl oldText ! (nat (LineNum c) - 1)"
      by simp
  qed
  from run have "ComputeLineDiff oldText newText = Some cs"
    by (simp add: ComputeLineDiff_def)
  with new nums old pos rem show ?thesis
    by blast
qed

lemma fill_table_a_b: "fill_table [''a''] [''b''] = [[0, 0], [0, 0]]"
  by (simp add: fill_table_def fill_row_def fill_cell_def make_dp_def)

lemma CLD_ab_b: "ComputeLineDiff [CHR ''a'', newline, CHR ''b''] ''b'' =
   Some [\<lparr>lcType = ''removed'', LineNum = 1, lcContent = ''a''\<rparr>,
         \<lparr>lcType = ''unchanged'', LineNum = 1, lcContent = ''b''\<rparr>]"
  by (simp add: ComputeLineDiff_def computeLCS_def newline_def backtrack.simps
        fill_table_def fill_row_def fill_cell_def make_dp_def)

text \<open>The round trip at the text of the two lines \<open>a\<close>, \<open>b\<close> and the text \<open>b\<close>.\<close>

theorem ComputeLineDiff_roundtrip_witness:
  "Join_nl (map lcContent (sort_key LineNum (filter new_side
      [\<lparr>lcType = ''removed'', LineNum = 1, lcContent = ''a''\<rparr>,
       \<lparr>lcType = ''unchanged'', LineNum = 1, lcContent = ''b''\<rparr>]))) = ''b'' \<and>
   Join_nl (map lcContent (filter old_side
      [\<lparr>lcType = ''removed'', LineNum = 1, lcContent = ''a''\<rparr>,
       \<lparr>lcType = ''unchanged'', LineNum = 1, lcContent = ''b''\<rparr>]))
     = [CHR ''a'', newline, CHR ''b''] \<and>
   lcType (filter old_side
      [\<lparr>lcType = ''removed'', LineNum = 1, lcContent = ''a''\<rparr>,
       \<lparr>lcType = ''unchanged'', LineNum = 1, lcContent = ''b''\<rparr>] ! 0) = ''removed'' \<and>
   LineNum (filter old_side
      [\<lparr>lcType = ''removed'', LineNum = 1, lcContent = ''a''\<rparr>,
       \<lparr>lcType = ''unchanged'', LineNum = 1, lcContent = ''b''\<rparr>] ! 0) = 1"
proof -
  let ?cs = "[\<lparr>lcType = ''removed'', LineNum = 1, lcContent = ''a''\<rparr>,
              \<lparr>lcType = ''unchanged'', LineNum = 1, lcContent = ''b''\<rparr>]"
  from ComputeLineDiff_roundtrip [of "[CHR ''a'', newline, CHR ''b'']" "''b''"]
  have new: "Join_nl (map lcContent (sort_key LineNum (filter new_side ?cs))) = ''b''"
    and old: "Join_nl (map lcContent (filter old_side ?cs)) = [CHR ''a'', newline, CHR ''b'']"
    and pos: "\<forall>k < length (filter old_side ?cs).
        lcType (filter old_side ?cs ! k) = ''removed'' \<longrightarrow>
        LineNum (filter old_side ?cs ! k) = int (Suc k)"
    unfolding CLD_ab_b by blast+
  have len: "0 < length (filter old_side ?cs)"
    by (simp add: old_side_def)
  have rem: "lcType (filter old_side ?cs ! 0) = ''removed''"
    by (simp add: old_side_def)
  from pos len rem have "LineNum (filter old_side ?cs ! 0) = 1"
    by fastforce
  with new old rem show ?thesis by blast
qed

text \<open>
  Claim C1 as stated fails on the old side: for the old text of the lines \<open>x\<close>, \<open>y\<close>,
  \<open>a\<close> and the new text of the lines \<open>a\<close>, \<open>q\<close> the removed and unchanged entries
  record the numbers 1, 2, 1, and read in increasing order of these numbers they give
  the lines \<open>x\<close>, \<open>a\<close>, \<open>y\<close>.
\<close>

theorem ComputeLineDiff_old_side_counterexample:
  "ComputeLineDiff [CHR ''x'', newline, CHR ''y'', newline, CHR ''a''] [CHR ''a'', newline, CHR ''q''] =
     Some [\<lparr>lcType = ''removed'', LineNum = 1, lcContent = ''x''\<rparr>,
           \<lparr>lcType = ''removed'', LineNum = 2, lcContent = ''y''\<rparr>,
           \<lparr>lcType = ''unchanged'', LineNum = 1, lcContent = ''a''\<rparr>,
           \<lparr>lcType = ''added'', LineNum = 2, lcContent = ''q''\<rparr>] \<and>
   Join_nl (map lcContent (sort_key LineNum (filter old_side
          [\<lparr>lcType = ''removed'', LineNum = 1, lcContent = ''x''\<rparr>,
           \<lparr>lcType = ''removed'', LineNum = 2, lcContent = ''y''\<rparr>,
           \<lparr>lcType = ''unchanged'', LineNum = 1, lcContent = ''a''\<rparr>,
           \<lparr>lcType = ''added'', LineNum = 2, lcContent = ''q''\<rparr>])))
     = [CHR ''x'', newline, CHR ''a'', newline, CHR ''y''] \<and>
   [CHR ''x'', newline, CHR ''a'', newline, CHR ''y'']
     \<noteq> [CHR ''x'', newline, CHR ''y'', newline, CHR ''a'']"
  by (simp add: ComputeLineDiff_def computeLCS_def backtrack.simps newline_def old_side_def
        fill_table_def fill_row_def fill_cell_def make_dp_def)

text \<open>
  Claim C6 (ties go to \<open>added\<close>).  Whenever the backtracking loop stands at a
  position \<open>(i, j)\<close> with both indices positive, the current old and new lines differ
  and the two candidate table entries \<open>dp[i][j-1]\<close> and \<open>dp[i-1][j]\<close> are equal, the
  step taken records an added entry for new line \<open>j\<close> and moves to \<open>(i, j-1)\<close>; the
  script the loop finally returns has that entry in front of what was recorded before.
  The table is arbitrary here, so this holds in particular for the table the function
  fills.
\<close>

theorem backtrack_tie_added:
  assumes "0 < i" "0 < j" "i \<le> length oldLines" "j \<le> length newLines"
    and "oldLines ! (i - 1) \<noteq> newLines ! (j - 1)"
    and "dp ! i ! (j - 1) = dp ! (i - 1) ! j"
  shows "backtrack dp oldLines newLines i j changes =
           backtrack dp oldLines newLines i (j - 1)
             (\<lparr>lcType = ''added'', LineNum = int j, lcContent = newLines ! (j - 1)\<rparr> # changes) \<and>
         (\<exists>pre. backtrack dp oldLines newLines i j changes =
             Some (pre @ \<lparr>lcType = ''added'', LineNum = int j, lcContent = newLines ! (j - 1)\<rparr>
                     # changes))"
proof -
  let ?A = "\<lparr>lcType = ''added'', LineNum = int j, lcContent = newLines ! (j - 1)\<rparr>"
  have step: "backtrack dp oldLines newLines i j changes =
              backtrack dp oldLines newLines i (j - 1) (?A # changes)"
    using assms backtrack_added [of j i oldLines newLines dp changes] by simp
  have "j - 1 \<le> length newLines" using assms by simp
  from backtrack_ok [OF assms(3) this, of dp "?A # changes"]
  obtain pre where "backtrack dp oldLines newLines i (j - 1) (?A # changes) = Some (pre @ ?A # changes)"
    by blast
  with step show ?thesis by simp
qed

text \<open>A tie at position \<open>(1, 1)\<close> of the table filled for the lines \<open>a\<close> and \<open>b\<close>.\<close>

theorem backtrack_tie_added_witness:
  "(0::nat) < 1 \<and> (1::nat) \<le> length [''a''] \<and> (1::nat) \<le> length [''b''] \<and>
   [''a''] ! (1 - 1) \<noteq> [''b''] ! (1 - 1) \<and>
   fill_table [''a''] [''b''] ! 1 ! (1 - 1) = fill_table [''a''] [''b''] ! (1 - 1) ! 1 \<and>
   backtrack (fill_table [''a''] [''b'']) [''a''] [''b''] 1 1 [] =
     backtrack (fill_table [''a''] [''b'']) [''a''] [''b''] 1 0
       [\<lparr>lcType = ''added'', LineNum = 1, lcContent = ''b''\<rparr>]"
proof -
  have h1: "(0::nat) < 1" by simp
  have h3: "(1::nat) \<le> length [''a'']" by simp
  have h4: "(1::nat) \<le> length [''b'']" by simp
  have h5: "[''a''] ! (1 - 1) \<noteq> [''b''] ! (1 - 1)" by simp
  have h6: "fill_table [''a''] [''b''] ! 1 ! (1 - 1) = fill_table [''a''] [''b''] ! (1 - 1) ! 1"
    by (simp add: fill_table_a_b)
  from backtrack_tie_added [OF h1 h1 h3 h4 h5 h6, of "[]"] h1 h3 h4 h5 h6
  show ?thesis by simp
qed

lemma backtrack_old_nil:
  "backtrack dp [] newLines 0 j changes =
     Some (map (\<lambda>k. \<lparr>lcType = ''added'', LineNum = int (Suc k), lcContent = newLines ! k\<rparr>) [0 ..< j]
           @ changes)"
proof (induction j arbitrary: changes)
  case 0
  show ?case by (simp add: backtrack_done)
next
  case (Suc j)
  have "backtrack dp [] newLines 0 (Suc j) changes =
        backtrack dp [] newLines 0 j
          (\<lparr>lcType = ''added'', LineNum = int (Suc j), lcContent = newLines ! j\<rparr> # changes)"
    using backtrack_added [of "Suc j" 0 "[]" newLines dp changes] by simp
  then show ?case by (simp add: Suc.IH)
qed

lemma backtrack_new_nil:
  "backtrack dp oldLines [] i 0 changes =
     Some (map (\<lambda>k. \<lparr>lcType = ''removed'', LineNum = int (Suc k), lcContent = oldLines ! k\<rparr>) [0 ..< i]
           @ changes)"
proof (induction i arbitrary: changes)
  case 0
  show ?case by (simp add: backtrack_done)
next
  case (Suc i)
  have "backtrack dp oldLines [] (Suc i) 0 changes =
        backtrack dp oldLines [] i 0
          (\<lparr>lcType = ''removed'', LineNum = int (Suc i), lcContent = oldLines ! i\<rparr> # changes)"
    using backtrack_removed [of "Suc i" 0 oldLines "[]" dp changes] by simp
  then show ?case by (simp add: Suc.IH)
qed

lemma ComputeLineDiff_sides:
  "\<exists>cs. ComputeLineDiff oldText newText = Some cs \<and>
        map lcContent (filter old_side cs) = Split_nl oldText \<and>
        map lcContent (filter new_side cs) = Split_nl newText"
proof -
  obtain cs where run: "computeLCS (Split_nl oldText) (Split_nl newText) = Some cs"
    and ok: "script_ok (Split_nl oldText) (Split_nl newText)
               (length (Split_nl oldText)) (length (Split_nl newText)) cs"
    using computeLCS_ok by blast
  from ok have "map lcContent (filter old_side cs) = Split_nl oldText"
    "map lcContent (filter new_side cs) = Split_nl newText"
    by (simp_all add: script_ok_def)
  with run show ?thesis by (simp add: ComputeLineDiff_def)
qed

text \<open>
  Claim C8, as amended.  On line sequences \<open>computeLCS\<close> treats the empty
  sequence as the claim says: two empty sequences give the empty script, an empty old
  sequence gives one added entry per new line (numbered from 1), an empty new sequence
  one removed entry per old line.  \<open>ComputeLineDiff\<close>, however, never hands it an
  empty sequence: \<open>strings.Split\<close> turns every text, the empty one too, into at least
  one line.  So no script of \<open>ComputeLineDiff\<close> is empty; two empty texts give the
  single entry "line 1, unchanged, empty"; and against an empty text the script has,
  besides the added (removed) entries, exactly one entry for the empty line of the
  empty text.
\<close>

theorem ComputeLineDiff_empty_inputs:
  "computeLCS [] [] = Some [] \<and>
   computeLCS [] newLines =
     Some (map (\<lambda>k. \<lparr>lcType = ''added'', LineNum = int (Suc k), lcContent = newLines ! k\<rparr>)
             [0 ..< length newLines]) \<and>
   computeLCS oldLines [] =
     Some (map (\<lambda>k. \<lparr>lcType = ''removed'', LineNum = int (Suc k), lcContent = oldLines ! k\<rparr>)
             [0 ..< length oldLines]) \<and>
   (\<exists>cs. ComputeLineDiff oldText newText = Some cs \<and> cs \<noteq> []) \<and>
   ComputeLineDiff [] [] = Some [\<lparr>lcType = ''unchanged'', LineNum = 1, lcContent = []\<rparr>] \<and>
   (\<exists>cs. ComputeLineDiff [] newText = Some cs \<and> map lcContent (filter old_side cs) = [[]]) \<and>
   (\<exists>cs. ComputeLineDiff oldText [] = Some cs \<and> map lcContent (filter new_side cs) = [[]])"
proof -
  have a: "computeLCS [] [] = Some []"
    by (simp add: computeLCS_def backtrack_done)
  have b: "computeLCS [] newLines =
     Some (map (\<lambda>k. \<lparr>lcType = ''added'', LineNum = int (Suc k), lcContent = newLines ! k\<rparr>)
             [0 ..< length newLines])"
    by (simp add: computeLCS_def backtrack_old_nil)
  have c: "computeLCS oldLines [] =
     Some (map (\<lambda>k. \<lparr>lcType = ''removed'', LineNum = int (Suc k), lcContent = oldLines ! k\<rparr>)
             [0 ..< length oldLines])"
    by (simp add: computeLCS_def backtrack_new_nil)
  obtain cs where cs: "ComputeLineDiff oldText newText = Some cs"
    "map lcContent (filter old_side cs) = Split_nl oldText"
    using ComputeLineDiff_sides by blast
  from cs(2) Split_nl_nonempty [of oldText] have "cs \<noteq> []" by auto
  with cs(1) have d: "\<exists>cs. ComputeLineDiff oldText newText = Some cs \<and> cs \<noteq> []" by blast
  have e: "ComputeLineDiff [] [] = Some [\<lparr>lcType = ''unchanged'', LineNum = 1, lcContent = []\<rparr>]"
    by (simp add: ComputeLineDiff_def computeLCS_def backtrack.simps
        fill_table_def fill_row_def fill_cell_def make_dp_def)
  have f: "\<exists>cs. ComputeLineDiff [] newText = Some cs \<and> map lcContent (filter old_side cs) = [[]]"
    using ComputeLineDiff_sides [of "[]" newText] by auto
  have g: "\<exists>cs. ComputeLineDiff oldText [] = Some cs \<and> map lcContent (filter new_side cs) = [[]]"
    using ComputeLineDiff_sides [of oldText "[]"] by auto
  from a b c d e f g show ?thesis by blast
qed

text \<open>
  Claim C8 as stated fails: two empty texts give a script of one entry, and an empty
  text against the text \<open>a\<close> gives a removed and an added entry.
\<close>

theorem ComputeLineDiff_empty_counterexample:
  "ComputeLineDiff [] [] = Some [\<lparr>lcType = ''unchanged'', LineNum = 1, lcContent = []\<rparr>] \<and>
   ComputeLineDiff [] ''a'' =
     Some [\<lparr>lcType = ''removed'', LineNum = 1, lcContent = []\<rparr>,
           \<lparr>lcType = ''added'', LineNum = 1, lcContent = ''a''\<rparr>] \<and>
   ComputeLineDiff ''a'' [] =
     Some [\<lparr>lcType = ''removed'', LineNum = 1, lcContent = ''a''\<rparr>,
           \<lparr>lcType = ''added'', LineNum = 1, lcContent = []\<rparr>]"
  by (simp add: ComputeLineDiff_def computeLCS_def backtrack.simps newline_def
        fill_table_def fill_row_def fill_cell_def make_dp_def)


section \<open>Properties of the parser wrapper and the line classifier\<close>

text \<open>
  Claim C10.  For every content and every block id, \<open>ParseIncremental\<close> returns what
  \<open>Parse\<close> returns on the content, whatever the goldmark parser and renderer do:
  the block id has no effect.
\<close>

theorem ParseIncremental_eq_Parse:
  "ParseIncremental p md5hex content blockID = Parse p md5hex content \<and>
   ParseIncremental p md5hex content blockID = ParseIncremental p md5hex content blockID'"
  by (simp add: ParseIncremental_def)

lemma char_eqI: "(of_char c :: nat) = of_char d \<Longrightarrow> c = d"
  by (simp only: of_char_eq_iff)

lemma byte_80_8A:
  fixes c :: char
  assumes "(0x80 :: nat) \<le> of_char c" "(of_char c :: nat) \<le> 0x8A"
  shows "c \<in> set [CHR 0x80, CHR 0x81, CHR 0x82, CHR 0x83, CHR 0x84, CHR 0x85, CHR 0x86,
                    CHR 0x87, CHR 0x88, CHR 0x89, CHR 0x8A]"
proof -
  from assms have "(of_char c :: nat) = 128 \<or> (of_char c :: nat) = 129 \<or> (of_char c :: nat) = 130 \<or>
    (of_char c :: nat) = 131 \<or> (of_char c :: nat) = 132 \<or> (of_char c :: nat) = 133 \<or>
    (of_char c :: nat) = 134 \<or> (of_char c :: nat) = 135 \<or> (of_char c :: nat) = 136 \<or>
    (of_char c :: nat) = 137 \<or> (of_char c :: nat) = 138"
    by arith
  then have "c = CHR 0x80 \<or> c = CHR 0x81 \<or> c = CHR 0x82 \<or> c = CHR 0x83 \<or> c = CHR 0x84 \<or>
    c = CHR 0x85 \<or> c = CHR 0x86 \<or> c = CHR 0x87 \<or> c = CHR 0x88 \<or> c = CHR 0x89 \<or> c = CHR 0x8A"
    by (elim disjE) (simp_all add: char_eqI)
  then show ?thesis by simp
qed

lemma space1_rune: "space1 a \<Longrightarrow> [a] \<in> set space_runes"
  by (auto simp add: space1_def space_runes_def)

lemma space2_rune: "space2 a b \<Longrightarrow> [a, b] \<in> set space_runes"
  by (auto simp add: space2_def space_runes_def)

lemma space3_rune: "space3 a b c \<Longrightarrow> [a, b, c] \<in> set space_runes"
proof -
  assume s: "space3 a b c"
  then consider (x) "a = CHR 0xE1" "b = CHR 0x9A" "c = CHR 0x80"
    | (r) "a = CHR 0xE2" "b = CHR 0x80" "(0x80 :: nat) \<le> of_char c" "(of_char c :: nat) \<le> 0x8A"
    | (l) "a = CHR 0xE2" "b = CHR 0x80" "c = CHR 0xA8 \<or> c = CHR 0xA9 \<or> c = CHR 0xAF"
    | (m) "a = CHR 0xE2" "b = CHR 0x81" "c = CHR 0x9F"
    | (i) "a = CHR 0xE3" "b = CHR 0x80" "c = CHR 0x80"
    unfolding space3_def by blast
  then show ?thesis
  proof cases
    case x then show ?thesis by (simp add: space_runes_def)
  next
    case r
    from byte_80_8A [OF r(3,4)] have "c = CHR 0x80 \<or> c = CHR 0x81 \<or> c = CHR 0x82 \<or>
      c = CHR 0x83 \<or> c = CHR 0x84 \<or> c = CHR 0x85 \<or> c = CHR 0x86 \<or> c = CHR 0x87 \<or>
      c = CHR 0x88 \<or> c = CHR 0x89 \<or> c = CHR 0x8A" by simp
    then show ?thesis using r(1,2) by (elim disjE) (simp_all add: space_runes_def)
  next
    case l then show ?thesis by (elim disjE) (simp_all add: space_runes_def)
  next
    case m then show ?thesis by (simp add: space_runes_def)
  next
    case i then show ?thesis by (simp add: space_runes_def)
  qed
qed

lemma space_rune_cases:
  assumes "w \<in> set space_runes"
  shows "(\<exists>a. w = [a] \<and> space1 a) \<or> (\<exists>a b. w = [a, b] \<and> space2 a b) \<or>
         (\<exists>a b c. w = [a, b, c] \<and> space3 a b c)"
  using assms
  by (simp add: space_runes_def) (elim disjE; simp add: space1_def space2_def space3_def)

lemma white_space_Nil: "white_space []"
  unfolding white_space_def by (rule exI [of _ "[]"]) simp

lemma white_space_pre:
  assumes "w \<in> set space_runes" "white_space l"
  shows "white_space (w @ l)"
proof -
  from assms(2) obtain ws where "l = concat ws" "set ws \<subseteq> set space_runes"
    unfolding white_space_def by blast
  with assms(1) have "w @ l = concat (w # ws) \<and> set (w # ws) \<subseteq> set space_runes" by simp
  then show ?thesis unfolding white_space_def by blast
qed

lemma white_space_post:
  assumes "w \<in> set space_runes" "white_space r"
  shows "white_space (r @ w)"
proof -
  from assms(2) obtain ws where "r = concat ws" "set ws \<subseteq> set space_runes"
    unfolding white_space_def by blast
  with assms(1) have "r @ w = concat (ws @ [w]) \<and> set (ws @ [w]) \<subseteq> set space_runes" by simp
  then show ?thesis unfolding white_space_def by blast
qed

lemma white1: "space1 a \<Longrightarrow> white_space l \<Longrightarrow> white_space (a # l)"
  using white_space_pre [of "[a]" l] by (simp add: space1_rune)

lemma white2: "space2 a b \<Longrightarrow> white_space l \<Longrightarrow> white_space (a # b # l)"
  using white_space_pre [of "[a, b]" l] by (simp add: space2_rune)

lemma white3: "space3 a b c \<Longrightarrow> white_space l \<Longrightarrow> white_space (a # b # c # l)"
  using white_space_pre [of "[a, b, c]" l] by (simp add: space3_rune)

lemma TrimLeftSpace_split: "\<exists>l. s = l @ TrimLeftSpace s \<and> white_space l"
proof (induction s rule: TrimLeftSpace.induct)
  case (1 a b c s)
  show ?case
  proof (cases "space1 a")
    case True
    from "1.IH"(1) [OF True] obtain l where "b # c # s = l @ TrimLeftSpace (b # c # s)" "white_space l"
      by blast
    with True have "a # b # c # s = ([a] @ l) @ TrimLeftSpace (a # b # c # s) \<and> white_space ([a] @ l)"
      by (simp add: white1)
    then show ?thesis by blast
  next
    case n1: False
    show ?thesis
    proof (cases "space2 a b")
      case True
      from "1.IH"(2) [OF n1 True] obtain l where "c # s = l @ TrimLeftSpace (c # s)" "white_space l"
        by blast
      with n1 True have "a # b # c # s = ([a, b] @ l) @ TrimLeftSpace (a # b # c # s)
          \<and> white_space ([a, b] @ l)"
        by (simp add: white2)
      then show ?thesis by blast
    next
      case n2: False
      show ?thesis
      proof (cases "space3 a b c")
        case True
        from "1.IH"(3) [OF n1 n2 True] obtain l where "s = l @ TrimLeftSpace s" "white_space l"
          by blast
        with n1 n2 True have "a # b # c # s = ([a, b, c] @ l) @ TrimLeftSpace (a # b # c # s)
            \<and> white_space ([a, b, c] @ l)"
          by (simp add: white3)
        then show ?thesis by blast
      next
        case False
        with n1 n2 have "a # b # c # s = [] @ TrimLeftSpace (a # b # c # s)" by simp
        with white_space_Nil show ?thesis by blast
      qed
    qed
  qed
next
  case (2 a b)
  show ?case
  proof (cases "space1 a")
    case True
    from "2.IH" [OF True] obtain l where "[b] = l @ TrimLeftSpace [b]" "white_space l" by blast
    with True have "[a, b] = ([a] @ l) @ TrimLeftSpace [a, b] \<and> white_space ([a] @ l)"
      by (simp add: white1)
    then show ?thesis by blast
  next
    case n1: False
    show ?thesis
    proof (cases "space2 a b")
      case True
      with n1 have "[a, b] = ([a, b] @ []) @ TrimLeftSpace [a, b] \<and> white_space ([a, b] @ [])"
        by (simp add: white2 white_space_Nil)
      then show ?thesis by blast
    next
      case False
      with n1 have "[a, b] = [] @ TrimLeftSpace [a, b]" by simp
      with white_space_Nil show ?thesis by blast
    qed
  qed
next
  case (3 a)
  show ?case
  proof (cases "space1 a")
    case True
    then have "[a] = ([a] @ []) @ TrimLeftSpace [a] \<and> white_space ([a] @ [])"
      by (simp add: white1 white_space_Nil)
    then show ?thesis by blast
  next
    case False
    then have "[a] = [] @ TrimLeftSpace [a]" by simp
    with white_space_Nil show ?thesis by blast
  qed
next
  case 4
  show ?case using white_space_Nil by simp
qed

lemma starts_with_rune:
  "(\<exists>w \<in> set space_runes. starts_with t w) \<longleftrightarrow>
     (\<exists>a r. t = a # r \<and> space1 a) \<or> (\<exists>a b r. t = a # b # r \<and> space2 a b) \<or>
     (\<exists>a b c r. t = a # b # c # r \<and> space3 a b c)"
proof
  assume "\<exists>w \<in> set space_runes. starts_with t w"
  then obtain w rest where w: "w \<in> set space_runes" and t: "t = w @ rest"
    unfolding starts_with_def by blast
  from space_rune_cases [OF w] t
  show "(\<exists>a r. t = a # r \<and> space1 a) \<or> (\<exists>a b r. t = a # b # r \<and> space2 a b) \<or>
     (\<exists>a b c r. t = a # b # c # r \<and> space3 a b c)"
    by auto
next
  assume "(\<exists>a r. t = a # r \<and> space1 a) \<or> (\<exists>a b r. t = a # b # r \<and> space2 a b) \<or>
     (\<exists>a b c r. t = a # b # c # r \<and> space3 a b c)"
  then consider (1) a r where "t = [a] @ r" "space1 a"
    | (2) a b r where "t = [a, b] @ r" "space2 a b"
    | (3) a b c r where "t = [a, b, c] @ r" "space3 a b c"
    by auto
  then show "\<exists>w \<in> set space_runes. starts_with t w"
  proof cases
    case 1
    with space1_rune show ?thesis unfolding starts_with_def by blast
  next
    case 2
    with space2_rune show ?thesis unfolding starts_with_def by blast
  next
    case 3
    with space3_rune show ?thesis unfolding starts_with_def by blast
  qed
qed

lemma TrimLeftSpace_no_lead: "\<not> (\<exists>w \<in> set space_runes. starts_with (TrimLeftSpace s) w)"
  unfolding starts_with_rune
  by (induction s rule: TrimLeftSpace.induct) auto

lemma white1r: "space1 c \<Longrightarrow> white_space r \<Longrightarrow> white_space (r @ [c])"
  using white_space_post [of "[c]" r] by (simp add: space1_rune)

lemma white2r: "space2 b c \<Longrightarrow> white_space r \<Longrightarrow> white_space (r @ [b, c])"
  using white_space_post [of "[b, c]" r] by (simp add: space2_rune)

lemma white3r: "space3 a b c \<Longrightarrow> white_space r \<Longrightarrow> white_space (r @ [a, b, c])"
  using white_space_post [of "[a, b, c]" r] by (simp add: space3_rune)

lemma TrimRightSpace_rev_split: "\<exists>r. u = rev r @ TrimRightSpace_rev u \<and> white_space r"
proof (induction u rule: TrimRightSpace_rev.induct)
  case (1 c b a s)
  show ?case
  proof (cases "space1 c")
    case True
    from "1.IH"(1) [OF True] obtain r where "b # a # s = rev r @ TrimRightSpace_rev (b # a # s)"
      "white_space r" by blast
    with True have "c # b # a # s = rev (r @ [c]) @ TrimRightSpace_rev (c # b # a # s)
        \<and> white_space (r @ [c])"
      by (simp add: white1r)
    then show ?thesis by blast
  next
    case n1: False
    show ?thesis
    proof (cases "space2 b c")
      case True
      from "1.IH"(2) [OF n1 True] obtain r where "a # s = rev r @ TrimRightSpace_rev (a # s)"
        "white_space r" by blast
      with n1 True have "c # b # a # s = rev (r @ [b, c]) @ TrimRightSpace_rev (c # b # a # s)
          \<and> white_space (r @ [b, c])"
        by (simp add: white2r)
      then show ?thesis by blast
    next
      case n2: False
      show ?thesis
      proof (cases "space3 a b c")
        case True
        from "1.IH"(3) [OF n1 n2 True] obtain r where "s = rev r @ TrimRightSpace_rev s"
          "white_space r" by blast
        with n1 n2 True have "c # b # a # s = rev (r @ [a, b, c]) @ TrimRightSpace_rev (c # b # a # s)
            \<and> white_space (r @ [a, b, c])"
          by (simp add: white3r)
        then show ?thesis by blast
      next
        case False
        with n1 n2 have "c # b # a # s = rev [] @ TrimRightSpace_rev (c # b # a # s)" by simp
        with white_space_Nil show ?thesis by blast
      qed
    qed
  qed
next
  case (2 c b)
  show ?case
  proof (cases "space1 c")
    case True
    from "2.IH" [OF True] obtain r where "[b] = rev r @ TrimRightSpace_rev [b]" "white_space r"
      by blast
    with True have "[c, b] = rev (r @ [c]) @ TrimRightSpace_rev [c, b] \<and> white_space (r @ [c])"
      by (simp add: white1r)
    then show ?thesis by blast
  next
    case n1: False
    show ?thesis
    proof (cases "space2 b c")
      case True
      with n1 have "[c, b] = rev ([] @ [b, c]) @ TrimRightSpace_rev [c, b] \<and> white_space ([] @ [b, c])"
        using white2r [OF True white_space_Nil] by simp
      then show ?thesis by blast
    next
      case False
      with n1 have "[c, b] = rev [] @ TrimRightSpace_rev [c, b]" by simp
      with white_space_Nil show ?thesis by blast
    qed
  qed
next
  case (3 c)
  show ?case
  proof (cases "space1 c")
    case True
    then have "[c] = rev ([] @ [c]) @ TrimRightSpace_rev [c] \<and> white_space ([] @ [c])"
      using white1r [OF True white_space_Nil] by simp
    then show ?thesis by blast
  next
    case False
    then have "[c] = rev [] @ TrimRightSpace_rev [c]" by simp
    with white_space_Nil show ?thesis by blast
  qed
next
  case 4
  show ?case using white_space_Nil by simp
qed

lemma starts_with_rev_rune:
  "(\<exists>w \<in> set space_runes. starts_with t (rev w)) \<longleftrightarrow>
     (\<exists>c r. t = c # r \<and> space1 c) \<or> (\<exists>c b r. t = c # b # r \<and> space2 b c) \<or>
     (\<exists>c b a r. t = c # b # a # r \<and> space3 a b c)"
proof
  assume "\<exists>w \<in> set space_runes. starts_with t (rev w)"
  then obtain w rest where w: "w \<in> set space_runes" and t: "t = rev w @ rest"
    unfolding starts_with_def by blast
  from space_rune_cases [OF w] t
  show "(\<exists>c r. t = c # r \<and> space1 c) \<or> (\<exists>c b r. t = c # b # r \<and> space2 b c) \<or>
     (\<exists>c b a r. t = c # b # a # r \<and> space3 a b c)"
    by auto
next
  assume "(\<exists>c r. t = c # r \<and> space1 c) \<or> (\<exists>c b r. t = c # b # r \<and> space2 b c) \<or>
     (\<exists>c b a r. t = c # b # a # r \<and> space3 a b c)"
  then consider (1) c r where "t = rev [c] @ r" "space1 c"
    | (2) c b r where "t = rev [b, c] @ r" "space2 b c"
    | (3) c b a r where "t = rev [a, b, c] @ r" "space3 a b c"
    by auto
  then show "\<exists>w \<in> set space_runes. starts_with t (rev w)"
  proof cases
    case 1
    with space1_rune show ?thesis unfolding starts_with_def by blast
  next
    case 2
    with space2_rune show ?thesis unfolding starts_with_def by blast
  next
    case 3
    with space3_rune show ?thesis unfolding starts_with_def by blast
  qed
qed

lemma TrimRightSpace_rev_no_trail:
  "\<not> (\<exists>w \<in> set space_runes. starts_with (TrimRightSpace_rev u) (rev w))"
  unfolding starts_with_rev_rune
  by (induction u rule: TrimRightSpace_rev.induct) auto

lemma ends_with_rev: "ends_with (rev x) w = starts_with x (rev w)"
proof
  assume "ends_with (rev x) w"
  then obtain front where "rev x = front @ w" unfolding ends_with_def by blast
  then have "x = rev w @ rev front" by (metis rev_append rev_rev_ident)
  then show "starts_with x (rev w)" unfolding starts_with_def by blast
next
  assume "starts_with x (rev w)"
  then obtain rest where "x = rev w @ rest" unfolding starts_with_def by blast
  then have "rev x = rev rest @ w" by simp
  then show "ends_with (rev x) w" unfolding ends_with_def by blast
qed

lemma TrimSpace_trimmed: "trimmed_of line (TrimSpace line)"
proof -
  obtain l where l: "line = l @ TrimLeftSpace line" "white_space l"
    using TrimLeftSpace_split by blast
  obtain r where r: "rev (TrimLeftSpace line) = rev r @ TrimRightSpace_rev (rev (TrimLeftSpace line))"
    "white_space r"
    using TrimRightSpace_rev_split by blast
  from r(1) have "rev (rev (TrimLeftSpace line)) = rev (rev r @ TrimRightSpace_rev (rev (TrimLeftSpace line)))"
    by simp
  then have m: "TrimLeftSpace line = TrimSpace line @ r"
    by (simp add: TrimSpace_def)
  with l have split: "line = l @ TrimSpace line @ r" by simp
  have lead: "\<And>w. w \<in> set space_runes \<Longrightarrow> \<not> starts_with (TrimSpace line) w"
  proof
    fix w assume w: "w \<in> set space_runes" and "starts_with (TrimSpace line) w"
    then obtain rest where "TrimSpace line = w @ rest" unfolding starts_with_def by blast
    with m have "TrimLeftSpace line = w @ (rest @ r)" by simp
    then have "starts_with (TrimLeftSpace line) w" unfolding starts_with_def by blast
    with w TrimLeftSpace_no_lead show False by blast
  qed
  have trail: "\<And>w. w \<in> set space_runes \<Longrightarrow> \<not> ends_with (TrimSpace line) w"
    using TrimRightSpace_rev_no_trail by (auto simp add: TrimSpace_def ends_with_rev)
  from split l(2) r(2) lead trail show ?thesis
    unfolding trimmed_of_def by blast
qed

lemma HasPrefix_starts_with: "HasPrefix t p = starts_with t p"
proof
  assume "HasPrefix t p"
  then have "t = p @ drop (length p) t"
    by (metis HasPrefix_def append_take_drop_id)
  then show "starts_with t p" unfolding starts_with_def by blast
next
  assume "starts_with t p"
  then show "HasPrefix t p" unfolding starts_with_def HasPrefix_def by auto
qed

lemma is_heading_prefix:
  "is_heading 1 t = HasPrefix t ''# ''"
  "is_heading 2 t = HasPrefix t ''## ''"
  "is_heading 3 t = HasPrefix t ''### ''"
  "is_heading 4 t = HasPrefix t ''#### ''"
  "is_heading 5 t = HasPrefix t ''##### ''"
  "is_heading 6 t = HasPrefix t ''###### ''"
  unfolding HasPrefix_starts_with is_heading_def starts_with_def
  by (simp_all add: eval_nat_numeral)

lemma IsDigit_byte_iff: "IsDigit_byte d = (d \<in> set ''0123456789'')"
proof
  assume "IsDigit_byte d"
  then have "(of_char d :: nat) = 48 \<or> (of_char d :: nat) = 49 \<or> (of_char d :: nat) = 50 \<or>
    (of_char d :: nat) = 51 \<or> (of_char d :: nat) = 52 \<or> (of_char d :: nat) = 53 \<or>
    (of_char d :: nat) = 54 \<or> (of_char d :: nat) = 55 \<or> (of_char d :: nat) = 56 \<or>
    (of_char d :: nat) = 57"
    unfolding IsDigit_byte_def by arith
  then have "d = CHR ''0'' \<or> d = CHR ''1'' \<or> d = CHR ''2'' \<or> d = CHR ''3'' \<or> d = CHR ''4'' \<or>
    d = CHR ''5'' \<or> d = CHR ''6'' \<or> d = CHR ''7'' \<or> d = CHR ''8'' \<or> d = CHR ''9''"
    by (elim disjE) (simp_all add: char_eqI)
  then show "d \<in> set ''0123456789''" by simp
next
  assume "d \<in> set ''0123456789''"
  then have "d = CHR ''0'' \<or> d = CHR ''1'' \<or> d = CHR ''2'' \<or> d = CHR ''3'' \<or> d = CHR ''4'' \<or>
    d = CHR ''5'' \<or> d = CHR ''6'' \<or> d = CHR ''7'' \<or> d = CHR ''8'' \<or> d = CHR ''9''"
    by simp
  then show "IsDigit_byte d"
    by (elim disjE) (simp_all add: IsDigit_byte_def)
qed

lemma starts_with_digit_iff: "starts_with_digit t = (length t > 0 \<and> IsDigit_byte (t ! 0))"
  unfolding starts_with_digit_def IsDigit_byte_iff by (cases t) auto

lemma Index_Some: "Index t sep = Some k \<Longrightarrow> t = take k t @ sep @ drop (k + length sep) t"
proof (induction t arbitrary: k)
  case Nil
  then show ?case by (simp split: if_splits)
next
  case (Cons c cs)
  show ?case
  proof (cases "HasPrefix (c # cs) sep")
    case True
    with Cons.prems have "k = 0" by simp
    moreover from True have "c # cs = sep @ drop (length sep) (c # cs)"
      by (metis HasPrefix_def append_take_drop_id)
    ultimately show ?thesis by simp
  next
    case False
    with Cons.prems obtain k' where k: "Index cs sep = Some k'" "k = Suc k'"
      by (auto split: option.splits)
    from Cons.IH [OF k(1)] k(2) show ?thesis by simp
  qed
qed

lemma Index_None: "Index (u @ sep @ v) sep \<noteq> None"
proof (induction u)
  case Nil
  have "HasPrefix (sep @ v) sep" by (simp add: HasPrefix_def)
  then show ?case by (cases "sep @ v") (simp_all add: HasPrefix_def)
next
  case (Cons c u)
  then show ?case by (auto split: option.splits)
qed

lemma SplitN2_two: "(length (SplitN2 t sep) = 2) = has_substring t sep"
proof
  assume "length (SplitN2 t sep) = 2"
  then obtain k where "Index t sep = Some k"
    by (auto simp add: SplitN2_def split: option.splits)
  from Index_Some [OF this] show "has_substring t sep"
    unfolding has_substring_def by blast
next
  assume "has_substring t sep"
  then obtain u v where "t = u @ sep @ v" unfolding has_substring_def by blast
  with Index_None [of u sep v] show "length (SplitN2 t sep) = 2"
    by (auto simp add: SplitN2_def split: option.splits)
qed

lemma DetectNotionSyntax_spec: "DetectNotionSyntax line = Classify_spec (TrimSpace line)"
  unfolding DetectNotionSyntax_def Classify_spec_def Let_def
    is_heading_prefix starts_with_digit_iff SplitN2_two [symmetric] HasPrefix_starts_with [symmetric]
  by simp

text \<open>
  Claim C5.  For every line, \<open>DetectNotionSyntax\<close> classifies the trimmed line, and
  gives the category of the first rule of the specification that matches, in the order
  heading, checkbox, unordered list, ordered list, fenced code, blockquote, paragraph.
  The trimmed line is the line without its leading and trailing white space.  The
  literal cases of the specification come out as stated; a line that starts (after
  trimming) with a checkbox marker is a checkbox although the unordered-list rule
  matches it too; and \<open>ParseLine\<close> returns no block exactly for the lines that are
  empty after trimming.
\<close>

theorem DetectNotionSyntax_cases:
  "trimmed_of line (TrimSpace line) \<and>
   DetectNotionSyntax line = Classify_spec (TrimSpace line) \<and>
   DetectNotionSyntax ''# Heading 1'' = ''h1'' \<and>
   DetectNotionSyntax ''- [ ] task'' = ''checkbox'' \<and>
   DetectNotionSyntax ''- [x] done'' = ''checkbox'' \<and>
   DetectNotionSyntax ''1. item'' = ''ordered_list'' \<and>
   DetectNotionSyntax ''* bullet'' = ''unordered_list'' \<and>
   DetectNotionSyntax ''Regular text'' = ''paragraph'' \<and>
   (HasPrefix (TrimSpace line) ''- [ ]'' \<or> HasPrefix (TrimSpace line) ''- [x]''
      \<longrightarrow> HasPrefix (TrimSpace line) ''- '' \<and> DetectNotionSyntax line = ''checkbox'') \<and>
   ((ParseLine p md5hex line lineNumber = None) = (TrimSpace line = []))"
proof -
  note defs = DetectNotionSyntax_def TrimSpace_def HasPrefix_def space1_def space2_def
    space3_def IsDigit_byte_def SplitN2_def
  have a: "DetectNotionSyntax ''# Heading 1'' = ''h1''" by (simp add: defs)
  have b: "DetectNotionSyntax ''- [ ] task'' = ''checkbox''" by (simp add: defs)
  have c: "DetectNotionSyntax ''- [x] done'' = ''checkbox''" by (simp add: defs)
  have d: "DetectNotionSyntax ''1. item'' = ''ordered_list''" by (simp add: defs)
  have e: "DetectNotionSyntax ''* bullet'' = ''unordered_list''" by (simp add: defs)
  have f: "DetectNotionSyntax ''Regular text'' = ''paragraph''" by (simp add: defs)
  have g: "HasPrefix (TrimSpace line) ''- [ ]'' \<or> HasPrefix (TrimSpace line) ''- [x]''
      \<longrightarrow> HasPrefix (TrimSpace line) ''- '' \<and> DetectNotionSyntax line = ''checkbox''"
  proof
    assume box: "HasPrefix (TrimSpace line) ''- [ ]'' \<or> HasPrefix (TrimSpace line) ''- [x]''"
    then obtain rest where t: "TrimSpace line = CHR ''-'' # CHR '' '' # rest"
      by (cases "TrimSpace line" rule: list.exhaust; cases "tl (TrimSpace line)")
         (auto simp add: HasPrefix_def)
    from t have "HasPrefix (TrimSpace line) ''- ''" by (simp add: HasPrefix_def)
    moreover from box t have "DetectNotionSyntax line = ''checkbox''"
      by (simp add: DetectNotionSyntax_def HasPrefix_def)
    ultimately show "HasPrefix (TrimSpace line) ''- '' \<and> DetectNotionSyntax line = ''checkbox''"
      by simp
  qed
  have h: "(ParseLine p md5hex line lineNumber = None) = (TrimSpace line = [])"
    by (simp add: ParseLine_def Let_def split: sum.splits)
  from TrimSpace_trimmed DetectNotionSyntax_spec a b c d e f g h show ?thesis by blast
qed

text \<open>
  The line \<open>- [x] done\<close> between blanks: its trimmed form has no blank at either end,
  it is a checkbox, by the specification's rules too; and the blank line gives no block.
\<close>

theorem DetectNotionSyntax_cases_witness:
  "HasPrefix (TrimSpace ''  - [x] done  '') ''- [x]'' \<and>
   HasPrefix (TrimSpace ''  - [x] done  '') ''- '' \<and>
   DetectNotionSyntax ''  - [x] done  '' = ''checkbox'' \<and>
   Classify_spec (TrimSpace ''  - [x] done  '') = ''checkbox'' \<and>
   '' '' \<in> set space_runes \<and>
   \<not> starts_with (TrimSpace ''  - [x] done  '') '' '' \<and>
   \<not> ends_with (TrimSpace ''  - [x] done  '') '' '' \<and>
   TrimSpace '' '' = [] \<and>
   ParseLine
     \<lparr>gm_Parse = (\<lambda>s. Node KindOther None []), gm_Render = (\<lambda>s n. Inr [])\<rparr>
     (\<lambda>s. replicate 32 (CHR ''0'')) '' '' 4 = None"
proof -
  have box: "HasPrefix (TrimSpace ''  - [x] done  '') ''- [x]''"
    by (simp add: TrimSpace_def HasPrefix_def space1_def space2_def space3_def)
  have blank: "TrimSpace '' '' = []"
    by (simp add: TrimSpace_def space1_def)
  have sp: "'' '' \<in> set space_runes"
    by (simp add: space_runes_def)
  note inst = DetectNotionSyntax_cases [of "''  - [x] done  ''"]
  from inst box
  have cb: "HasPrefix (TrimSpace ''  - [x] done  '') ''- '' \<and>
        DetectNotionSyntax ''  - [x] done  '' = ''checkbox''" by blast
  from inst have "DetectNotionSyntax ''  - [x] done  '' = Classify_spec (TrimSpace ''  - [x] done  '')"
    by blast
  with cb have spec: "Classify_spec (TrimSpace ''  - [x] done  '') = ''checkbox''" by simp
  from inst have "trimmed_of ''  - [x] done  '' (TrimSpace ''  - [x] done  '')" by blast
  with sp have ends: "\<not> starts_with (TrimSpace ''  - [x] done  '') '' '' \<and>
      \<not> ends_with (TrimSpace ''  - [x] done  '') '' ''"
    unfolding trimmed_of_def by blast
  from DetectNotionSyntax_cases [of "'' ''"
      "\<lparr>gm_Parse = (\<lambda>s. Node KindOther None []), gm_Render = (\<lambda>s n. Inr [])\<rparr>"
      "(\<lambda>s. replicate 32 (CHR ''0''))" 4] blank
  have "ParseLine
     \<lparr>gm_Parse = (\<lambda>s. Node KindOther None []), gm_Render = (\<lambda>s n. Inr [])\<rparr>
     (\<lambda>s. replicate 32 (CHR ''0'')) '' '' 4 = None" by blast
  with box cb spec sp ends blank show ?thesis by blast
qed


section \<open>Properties of the connection hub\<close>

lemma send_or_drop_open:
  assumes "\<not> chClosed (send (clientStore h c))"
  shows "send_or_drop h c data =
     Inr (if buffer_full (clientStore h c)
          then h\<lparr>clientStore := (clientStore h)(c := (clientStore h c)\<lparr>send := (send (clientStore h c))\<lparr>chClosed := True\<rparr>\<rparr>),
                 clients := removeAll c (clients h)\<rparr>
          else h\<lparr>clientStore := (clientStore h)(c := (clientStore h c)\<lparr>send := (send (clientStore h c))\<lparr>buf := buf (send (clientStore h c)) @ [data]\<rparr>\<rparr>)\<rparr>)"
  using assms by (simp add: send_or_drop_def select_send_def close_chan_def buffer_full_def)

lemma broadcast_loop_ok:
  assumes "distinct cs" "set cs \<subseteq> set (clients h)" "hub_ok h"
  shows "\<exists>h'. broadcast_loop cs documentID data h = Inr h' \<and>
          clients h' = filter (\<lambda>c. \<not> (c \<in> set cs \<and> dropped h documentID c)) (clients h) \<and>
          (\<forall>c. clientStore h' c =
                 (if c \<in> set cs then after_dispatch documentID data (clientStore h c)
                  else clientStore h c))"
  using assms
proof (induction cs arbitrary: h)
  case Nil
  then show ?case by simp
next
  case (Cons c cs)
  from Cons.prems have cin: "c \<in> set (clients h)" and cnot: "c \<notin> set cs" and dcs: "distinct cs"
    and sub: "set cs \<subseteq> set (clients h)" by auto
  from Cons.prems cin have op: "\<not> chClosed (send (clientStore h c))"
    by (simp add: hub_ok_def)
  show ?case
  proof (cases "subscribedDocuments (clientStore h c) documentID")
    case False
    from Cons.IH [OF dcs sub Cons.prems(3)]
    obtain h' where r: "broadcast_loop cs documentID data h = Inr h'"
      and cl: "clients h' = filter (\<lambda>c. \<not> (c \<in> set cs \<and> dropped h documentID c)) (clients h)"
      and st: "\<forall>c. clientStore h' c =
                 (if c \<in> set cs then after_dispatch documentID data (clientStore h c)
                  else clientStore h c)" by blast
    from False r have "broadcast_loop (c # cs) documentID data h = Inr h'" by simp
    moreover from cl False have "clients h' = filter (\<lambda>x. \<not> (x \<in> set (c # cs) \<and> dropped h documentID x)) (clients h)"
      by (auto simp add: dropped_def intro: filter_cong)
    moreover from st False have "\<forall>x. clientStore h' x =
                 (if x \<in> set (c # cs) then after_dispatch documentID data (clientStore h x)
                  else clientStore h x)"
      by (auto simp add: after_dispatch_def)
    ultimately show ?thesis by blast
  next
    case True
    let ?h1 = "if buffer_full (clientStore h c)
          then h\<lparr>clientStore := (clientStore h)(c := (clientStore h c)\<lparr>send := (send (clientStore h c))\<lparr>chClosed := True\<rparr>\<rparr>),
                 clients := removeAll c (clients h)\<rparr>
          else h\<lparr>clientStore := (clientStore h)(c := (clientStore h c)\<lparr>send := (send (clientStore h c))\<lparr>buf := buf (send (clientStore h c)) @ [data]\<rparr>\<rparr>)\<rparr>"
    have sd: "send_or_drop h c data = Inr ?h1" by (rule send_or_drop_open [OF op])
    have st1: "clientStore ?h1 = (clientStore h)(c := after_dispatch documentID data (clientStore h c))"
      using True by (auto simp add: after_dispatch_def)
    have cl1: "clients ?h1 = filter (\<lambda>x. \<not> (x = c \<and> dropped h documentID x)) (clients h)"
      using True by (auto simp add: dropped_def removeAll_filter_not_eq intro: filter_cong)
    have ok1: "hub_ok ?h1"
      using Cons.prems(3) by (auto simp add: hub_ok_def distinct_removeAll)
    have sub1: "set cs \<subseteq> set (clients ?h1)"
      using sub cnot by auto
    from Cons.IH [OF dcs sub1 ok1]
    obtain h' where r: "broadcast_loop cs documentID data ?h1 = Inr h'"
      and cl: "clients h' = filter (\<lambda>c. \<not> (c \<in> set cs \<and> dropped ?h1 documentID c)) (clients ?h1)"
      and st: "\<forall>c. clientStore h' c =
                 (if c \<in> set cs then after_dispatch documentID data (clientStore ?h1 c)
                  else clientStore ?h1 c)" by blast
    from True sd r have run: "broadcast_loop (c # cs) documentID data h = Inr h'" by simp
    have dr: "\<And>x. x \<in> set cs \<Longrightarrow> dropped ?h1 documentID x = dropped h documentID x"
      using cnot by (auto simp add: dropped_def)
    have "clients h' = filter (\<lambda>x. \<not> (x \<in> set (c # cs) \<and> dropped h documentID x)) (clients h)"
      unfolding cl cl1 filter_filter using dr by (auto intro: filter_cong)
    moreover have "\<forall>x. clientStore h' x =
                 (if x \<in> set (c # cs) then after_dispatch documentID data (clientStore h x)
                  else clientStore h x)"
      using st cnot unfolding st1 by auto
    ultimately show ?thesis using run by blast
  qed
qed


text \<open>
  Claim C4, as amended.  A dispatch to a document on a well-formed hub returns (no
  channel operation blocks or panics) and leaves the hub well formed.  Every live
  client that is subscribed to the document and whose buffer is full is removed from
  the live set and its channel is closed, once: a later unregistration of it changes
  nothing.  Its set of subscribed documents stays as it was.  Every other live
  subscriber of the document has the payload appended to its buffer in the same pass
  and stays live, and the clients that are not subscribed are untouched.
\<close>

theorem broadcastToDocument_backpressure:
  assumes "hub_ok h" and "marshal response = Inr data"
  shows "\<exists>h'. broadcastToDocument marshal h documentID response = Inr h' \<and> hub_ok h' \<and>
     set (clients h') \<subseteq> set (clients h) \<and>
     (\<forall>c \<in> set (clients h).
        subscribedDocuments (clientStore h c) documentID \<and> buffer_full (clientStore h c) \<longrightarrow>
          c \<notin> set (clients h') \<and>
          send (clientStore h' c) = (send (clientStore h c))\<lparr>chClosed := True\<rparr> \<and>
          subscribedDocuments (clientStore h' c) = subscribedDocuments (clientStore h c) \<and>
          unregister h' c = Inr h') \<and>
     (\<forall>c \<in> set (clients h).
        subscribedDocuments (clientStore h c) documentID \<and> \<not> buffer_full (clientStore h c) \<longrightarrow>
          c \<in> set (clients h') \<and>
          send (clientStore h' c) = (send (clientStore h c))\<lparr>buf := buf (send (clientStore h c)) @ [data]\<rparr> \<and>
          subscribedDocuments (clientStore h' c) = subscribedDocuments (clientStore h c)) \<and>
     (\<forall>c. c \<notin> set (clients h) \<or> \<not> subscribedDocuments (clientStore h c) documentID \<longrightarrow>
          (c \<in> set (clients h') \<longleftrightarrow> c \<in> set (clients h)) \<and> clientStore h' c = clientStore h c)"
proof -
  from assms(1) have d: "distinct (clients h)" by (simp add: hub_ok_def)
  from broadcast_loop_ok [OF d subset_refl assms(1), of documentID data]
  obtain h' where run: "broadcast_loop (clients h) documentID data h = Inr h'"
    and cl: "clients h' = filter (\<lambda>c. \<not> (c \<in> set (clients h) \<and> dropped h documentID c)) (clients h)"
    and st: "\<forall>c. clientStore h' c =
               (if c \<in> set (clients h) then after_dispatch documentID data (clientStore h c)
                else clientStore h c)" by blast
  from run assms(2) have r: "broadcastToDocument marshal h documentID response = Inr h'"
    by (simp add: broadcastToDocument_def)
  have ok: "hub_ok h'"
    using assms(1) cl st by (auto simp add: hub_ok_def after_dispatch_def dropped_def)
  have sub: "set (clients h') \<subseteq> set (clients h)"
    using cl by auto
  have slow: "\<forall>c \<in> set (clients h).
        subscribedDocuments (clientStore h c) documentID \<and> buffer_full (clientStore h c) \<longrightarrow>
          c \<notin> set (clients h') \<and>
          send (clientStore h' c) = (send (clientStore h c))\<lparr>chClosed := True\<rparr> \<and>
          subscribedDocuments (clientStore h' c) = subscribedDocuments (clientStore h c) \<and>
          unregister h' c = Inr h'"
    using cl st by (auto simp add: after_dispatch_def dropped_def unregister_def)
  have ready: "\<forall>c \<in> set (clients h).
        subscribedDocuments (clientStore h c) documentID \<and> \<not> buffer_full (clientStore h c) \<longrightarrow>
          c \<in> set (clients h') \<and>
          send (clientStore h' c) = (send (clientStore h c))\<lparr>buf := buf (send (clientStore h c)) @ [data]\<rparr> \<and>
          subscribedDocuments (clientStore h' c) = subscribedDocuments (clientStore h c)"
    using cl st by (auto simp add: after_dispatch_def dropped_def)
  have others: "\<forall>c. c \<notin> set (clients h) \<or> \<not> subscribedDocuments (clientStore h c) documentID \<longrightarrow>
          (c \<in> set (clients h') \<longleftrightarrow> c \<in> set (clients h)) \<and> clientStore h' c = clientStore h c"
    using cl st by (auto simp add: after_dispatch_def dropped_def)
  from r ok sub slow ready others show ?thesis by blast
qed

lemma two_clients_run:
  "broadcastToDocument Inr two_clients ''doc'' ''second'' =
     Inr \<lparr>clients = [1],
          clientStore = (clientStore two_clients)
            (0 := slow_client\<lparr>send := (send slow_client)\<lparr>chClosed := True\<rparr>\<rparr>,
             1 := ready_client\<lparr>send := (send ready_client)\<lparr>buf := [''second'']\<rparr>\<rparr>)\<rparr>"
  by (simp add: broadcastToDocument_def send_or_drop_def select_send_def close_chan_def
      two_clients_def slow_client_def ready_client_def)

text \<open>
  Claim C4 as stated fails where it says that the subscriptions of the dropped
  connection are cleared: after the dispatch the slow client of \<open>two_clients\<close> is
  gone from the live set, its channel is closed, and it is still subscribed to \<open>doc\<close>.
\<close>

theorem broadcastToDocument_subscriptions_kept:
  "clients (projr (broadcastToDocument Inr two_clients ''doc'' ''second'')) = [1] \<and>
   chClosed (send (clientStore (projr (broadcastToDocument Inr two_clients ''doc'' ''second'')) 0)) \<and>
   subscribedDocuments
     (clientStore (projr (broadcastToDocument Inr two_clients ''doc'' ''second'')) 0) ''doc''"
  by (simp add: two_clients_run slow_client_def)

text \<open>The dispatch of \<open>second\<close> to the document \<open>doc\<close> on \<open>two_clients\<close>.\<close>

theorem broadcastToDocument_backpressure_witness:
  "hub_ok two_clients \<and>
   0 \<in> set (clients two_clients) \<and> 1 \<in> set (clients two_clients) \<and>
   subscribedDocuments (clientStore two_clients 0) ''doc'' \<and> buffer_full (clientStore two_clients 0) \<and>
   subscribedDocuments (clientStore two_clients 1) ''doc'' \<and> \<not> buffer_full (clientStore two_clients 1) \<and>
   0 \<notin> set (clients (projr (broadcastToDocument Inr two_clients ''doc'' ''second''))) \<and>
   chClosed (send (clientStore (projr (broadcastToDocument Inr two_clients ''doc'' ''second'')) 0)) \<and>
   1 \<in> set (clients (projr (broadcastToDocument Inr two_clients ''doc'' ''second''))) \<and>
   buf (send (clientStore (projr (broadcastToDocument Inr two_clients ''doc'' ''second'')) 1))
     = [''second'']"
proof -
  have ok: "hub_ok two_clients"
    by (simp add: hub_ok_def two_clients_def slow_client_def ready_client_def)
  have m: "(Inr :: string \<Rightarrow> string + string) ''second'' = Inr ''second''" by simp
  have c0: "0 \<in> set (clients two_clients)" and c1: "1 \<in> set (clients two_clients)"
    by (simp_all add: two_clients_def)
  have s0: "subscribedDocuments (clientStore two_clients 0) ''doc'' \<and> buffer_full (clientStore two_clients 0)"
    by (simp add: two_clients_def slow_client_def buffer_full_def)
  have s1: "subscribedDocuments (clientStore two_clients 1) ''doc'' \<and> \<not> buffer_full (clientStore two_clients 1)"
    by (simp add: two_clients_def ready_client_def buffer_full_def)
  from broadcastToDocument_backpressure
    [where marshal = Inr and response = "''second''" and documentID = "''doc''", OF ok m]
  obtain h' where r: "broadcastToDocument Inr two_clients ''doc'' ''second'' = Inr h'"
    and slow: "\<forall>c \<in> set (clients two_clients).
        subscribedDocuments (clientStore two_clients c) ''doc'' \<and> buffer_full (clientStore two_clients c) \<longrightarrow>
          c \<notin> set (clients h') \<and>
          send (clientStore h' c) = (send (clientStore two_clients c))\<lparr>chClosed := True\<rparr> \<and>
          subscribedDocuments (clientStore h' c) = subscribedDocuments (clientStore two_clients c) \<and>
          unregister h' c = Inr h'"
    and ready: "\<forall>c \<in> set (clients two_clients).
        subscribedDocuments (clientStore two_clients c) ''doc'' \<and> \<not> buffer_full (clientStore two_clients c) \<longrightarrow>
          c \<in> set (clients h') \<and>
          send (clientStore h' c) = (send (clientStore two_clients c))\<lparr>buf := buf (send (clientStore two_clients c)) @ [''second'']\<rparr> \<and>
          subscribedDocuments (clientStore h' c) = subscribedDocuments (clientStore two_clients c)"
    by blast
  from slow c0 s0 have a: "0 \<notin> set (clients h') \<and> chClosed (send (clientStore h' 0))"
    by fastforce
  from ready c1 s1 have "1 \<in> set (clients h') \<and>
      send (clientStore h' 1) = (send (clientStore two_clients 1))\<lparr>buf := buf (send (clientStore two_clients 1)) @ [''second'']\<rparr>"
    by blast
  then have b: "1 \<in> set (clients h') \<and> buf (send (clientStore h' 1)) = [''second'']"
    by (simp add: two_clients_def ready_client_def)
  from r have p: "projr (broadcastToDocument Inr two_clients ''doc'' ''second'') = h'" by simp
  from ok c0 c1 s0 s1 a b show ?thesis unfolding p by blast
qed


end
